theory Spec2Isabelle
  imports Main "HOL-Library.Word"
begin

section \<open>The region graph of \<open>GraphSolver\<close>\<close>

text \<open>
  JavaScript numbers that hold identifiers, colour indices, depths and limits are integers
  here. A failed property access on \<open>undefined\<close> (the \<open>!\<close> assertions of the source do not
  check anything at run time) is the error value \<open>TypeError\<close>; \<open>RangeError\<close> is what
  \<open>new Int32Array(n)\<close> throws for a negative \<open>n\<close>.
\<close>

datatype error = TypeError | RangeError

text \<open>
  A colour is what an entry of the colour array holds: a colour index, or \<open>undefined\<close>
  where the array has no entry (the source reads some entries unguarded and goes on with
  that value). \<open>None\<close> is \<open>undefined\<close>.
\<close>

type_synonym colour = "int option"

text \<open>
  \<open>interface RegionNode { id; color; size; neighbors: Set<number> }\<close>. A \<open>Set<number>\<close> is
  the list of its elements in insertion order, which is the order JavaScript iterates it in.
\<close>

record RegionNode =
  id_node :: int
  color :: colour
  size_node :: nat
  neighbors :: "int list"

text \<open>
  A \<open>Map<number, RegionNode>\<close> is the list of its entries in insertion order. Every node
  object is stored under exactly one key, so mutating the object is changing the entry.
\<close>

type_synonym graph = "(int \<times> RegionNode) list"

definition set_add :: "'a \<Rightarrow> 'a list \<Rightarrow> 'a list" where
  \<comment> \<open>\<open>Set.add\<close>: a new element goes to the end, a present one changes nothing\<close>
  "set_add x xs = (if x \<in> set xs then xs else xs @ [x])"

definition set_delete :: "int \<Rightarrow> int list \<Rightarrow> int list" where
  \<comment> \<open>\<open>Set.delete\<close>\<close>
  "set_delete x xs = removeAll x xs"

definition map_delete :: "int \<Rightarrow> graph \<Rightarrow> graph" where
  \<comment> \<open>\<open>Map.delete\<close>\<close>
  "map_delete k m = filter (\<lambda>kv. fst kv \<noteq> k) m"

definition map_modify :: "int \<Rightarrow> (RegionNode \<Rightarrow> RegionNode) \<Rightarrow> graph \<Rightarrow> graph" where
  \<comment> \<open>mutation of the node object stored under key \<open>k\<close>; when the map no longer holds the
      object, the mutation is not visible in the map\<close>
  "map_modify k f m = map (\<lambda>kv. if fst kv = k then (fst kv, f (snd kv)) else kv) m"

fun foldE :: "('a \<Rightarrow> 's \<Rightarrow> error + 's) \<Rightarrow> 'a list \<Rightarrow> 's \<Rightarrow> error + 's" where
  \<comment> \<open>a \<open>for ... of\<close> loop over a snapshot of the elements, left by the first exception\<close>
  "foldE f [] s = Inr s"
| "foldE f (x # xs) s = (case f x s of Inl e \<Rightarrow> Inl e | Inr s' \<Rightarrow> foldE f xs s')"

subsection \<open>\<open>applyMove\<close>\<close>

definition mergeDeep :: "int \<Rightarrow> int \<Rightarrow> int \<Rightarrow> graph \<Rightarrow> error + graph" where
  \<comment> \<open>the body of \<open>for (const deepNeighborId of mergeNode.neighbors)\<close>\<close>
  "mergeDeep targetId mergeId deepNeighborId newNodes =
     (if deepNeighborId \<noteq> targetId then
        (let newNodes1 = map_modify targetId
               (\<lambda>n. n\<lparr>neighbors := set_add deepNeighborId (neighbors n)\<rparr>) newNodes
         in case map_of newNodes1 deepNeighborId of
              None \<Rightarrow> Inl TypeError
            | Some deepNeighbor \<Rightarrow>
                Inr (map_modify deepNeighborId
                      (\<lambda>n. n\<lparr>neighbors := set_add targetId (set_delete mergeId (neighbors n))\<rparr>)
                      newNodes1))
      else Inr newNodes)"

definition mergeOne :: "int \<Rightarrow> int \<Rightarrow> graph \<Rightarrow> error + graph" where
  \<comment> \<open>the body of \<open>for (const mergeId of neighborsToMerge)\<close>. The inner loop runs over the
      neighbours the merged node had when the iteration began: the only elements the body
      can add to that set while it is iterated are \<open>targetId\<close> (skipped by the guard) or
      present already.\<close>
  "mergeOne targetId mergeId newNodes =
     (case map_of newNodes mergeId of
        None \<Rightarrow> Inl TypeError
      | Some mergeNode \<Rightarrow>
          (case foldE (mergeDeep targetId mergeId) (neighbors mergeNode)
                  (map_modify targetId
                     (\<lambda>n. n\<lparr>size_node := size_node n + size_node mergeNode,
                            neighbors := set_delete mergeId (neighbors n)\<rparr>) newNodes) of
             Inl e \<Rightarrow> Inl e
           | Inr newNodes2 \<Rightarrow> Inr (map_delete mergeId newNodes2)))"

definition neighborsToMerge :: "graph \<Rightarrow> int list \<Rightarrow> colour \<Rightarrow> int list" where
  "neighborsToMerge newNodes targetNeighbors newColor =
     filter (\<lambda>nId. case map_of newNodes nId of
                      None \<Rightarrow> False
                    | Some neighbor \<Rightarrow> color neighbor = newColor) targetNeighbors"

definition applyMove :: "graph \<Rightarrow> int \<Rightarrow> colour \<Rightarrow> error + graph" where
  \<comment> \<open>The copy loop \<open>newNodes.set(id, {...node, neighbors: new Set(node.neighbors)})\<close> keeps
      keys, fields and both insertion orders, so the copy is the same value.\<close>
  "applyMove nodes targetId newColor =
     (case map_of nodes targetId of
        None \<Rightarrow> Inl TypeError
      | Some targetNode \<Rightarrow>
          (let newNodes = map_modify targetId (\<lambda>n. n\<lparr>color := newColor\<rparr>) nodes
           in case foldE (mergeOne targetId)
                     (neighborsToMerge newNodes (neighbors targetNode) newColor) newNodes of
                Inl e \<Rightarrow> Inl e
              | Inr newNodes' \<Rightarrow>
                  Inr (map_modify targetId
                        (\<lambda>n. n\<lparr>neighbors := set_delete targetId (neighbors n)\<rparr>) newNodes')))"

subsection \<open>\<open>heuristic\<close> and \<open>getPossibleMoves\<close>\<close>

definition colorSet :: "graph \<Rightarrow> colour list" where
  \<comment> \<open>\<open>colors\<close> of \<open>heuristic\<close>: the colours of all nodes, as a \<open>Set\<close>\<close>
  "colorSet nodes = fold (\<lambda>kv acc. set_add (color (snd kv)) acc) nodes []"

definition heuristic :: "graph \<Rightarrow> int" where
  "heuristic nodes = max 0 (int (length (colorSet nodes)) - 1)"

record Move =
  regionId :: int
  targetColor :: colour
  score :: int

definition neighborColors :: "graph \<Rightarrow> RegionNode \<Rightarrow> colour list" where
  "neighborColors nodes node =
     fold (\<lambda>nId acc. case map_of nodes nId of
                        None \<Rightarrow> acc
                      | Some neighbor \<Rightarrow> set_add (color neighbor) acc) (neighbors node) []"

definition getPossibleMoves :: "graph \<Rightarrow> Move list" where
  "getPossibleMoves nodes =
     concat (map (\<lambda>kv. map (\<lambda>c. \<lparr>regionId = id_node (snd kv), targetColor = c, score = 0\<rparr>)
                          (neighborColors nodes (snd kv))) nodes)"

subsection \<open>\<open>dfs\<close> and \<open>solve\<close>\<close>

record PathStep =
  step_regionId :: int
  step_color :: colour

record Result =
  steps :: int
  path :: "PathStep list"

fun firstResult :: "('a \<Rightarrow> error + 'r option) \<Rightarrow> 'a list \<Rightarrow> error + 'r option" where
  \<comment> \<open>\<open>for (const x of xs) { const res = f(x); if (res) return res }; return null\<close>\<close>
  "firstResult f [] = Inr None"
| "firstResult f (x # xs) =
     (case f x of
        Inl e \<Rightarrow> Inl e
      | Inr (Some res) \<Rightarrow> Inr (Some res)
      | Inr None \<Rightarrow> firstResult f xs)"

lemma firstResult_cong [fundef_cong]:
  "xs = ys \<Longrightarrow> (\<And>x. x \<in> set ys \<Longrightarrow> f x = g x) \<Longrightarrow> firstResult f xs = firstResult g ys"
proof (induction ys arbitrary: xs)
  case Nil
  then show ?case by simp
next
  case (Cons y ys)
  then show ?case by (simp split: sum.splits option.splits)
qed

lemma heuristic_nonneg: "0 \<le> heuristic nodes"
  by (simp add: heuristic_def)

function dfs :: "graph \<Rightarrow> int \<Rightarrow> int \<Rightarrow> PathStep list \<Rightarrow> error + Result option" where
  "dfs currentNodes depth limit pth =
     (if length currentNodes = 1 then Inr (Some \<lparr>steps = depth, path = pth\<rparr>)
      else if depth + heuristic currentNodes > limit then Inr None
      else firstResult
             (\<lambda>move. case applyMove currentNodes (regionId move) (targetColor move) of
                        Inl e \<Rightarrow> Inl e
                      | Inr nextNodes \<Rightarrow>
                          dfs nextNodes (depth + 1) limit
                            (pth @ [\<lparr>step_regionId = regionId move,
                                     step_color = targetColor move\<rparr>]))
             (getPossibleMoves currentNodes))"
  by pat_completeness auto
termination
proof (relation "measure (\<lambda>(n, d, l, p). nat (l + 1 - d))")
  show "wf (measure (\<lambda>(n, d, l, p). nat (l + 1 - d)))"
    by simp
next
  fix currentNodes :: graph and depth limit :: int and pth :: "PathStep list"
    and x :: Move and x2 :: graph
  assume "\<not> limit < depth + heuristic currentNodes"
  moreover have "0 \<le> heuristic currentNodes"
    by (rule heuristic_nonneg)
  ultimately show "((x2, depth + 1, limit,
      pth @ [\<lparr>step_regionId = regionId x, step_color = targetColor x\<rparr>]),
      (currentNodes, depth, limit, pth)) \<in> measure (\<lambda>(n, d, l, p). nat (l + 1 - d))"
    by simp
qed

definition limits :: "int option \<Rightarrow> int list" where
  \<comment> \<open>the values of \<open>limit\<close> in \<open>for (let limit = 0; limit <= maxDepthLimit; limit++)\<close>, with
      the default parameter \<open>maxDepthLimit: number = 10\<close>; \<open>None\<close> is a call without argument\<close>
  "limits maxDepthLimit = [0 .. (case maxDepthLimit of None \<Rightarrow> 10 | Some m \<Rightarrow> m)]"

definition solve :: "graph \<Rightarrow> int option \<Rightarrow> error + Result option" where
  "solve nodes maxDepthLimit =
     firstResult (\<lambda>limit. dfs nodes 0 limit []) (limits maxDepthLimit)"


section \<open>The grid\<close>

subsection \<open>Union-Find\<close>

text \<open>
  Modelled from the spec: the class \<open>UnionFind\<close>, imported by \<open>GameGrid.ts\<close> from
  \<open>./UnionFind\<close>, a file that is not among the sources. The spec gives it a parent array,
  a live component count, \<open>find\<close> ("returns the canonical representative of the component
  containing element i; path compression permitted but not required") and \<open>union\<close>
  ("merges the components of i and j; no-op if already merged; decrements the live
  root-count exactly once per successful merge"). The model keeps every path fully
  compressed: \<open>parent ! i\<close> is the representative of \<open>i\<close>. Ranks are not modelled; they
  choose which of the two representatives survives a merge, here the one of \<open>i\<close>.
\<close>

record UnionFind =
  parent :: "nat list"
  count :: nat

definition uf_new :: "nat \<Rightarrow> UnionFind" where
  \<comment> \<open>Modelled from the spec: \<open>new UnionFind(n)\<close>, \<open>n\<close> components of one element each\<close>
  "uf_new n = \<lparr>parent = [0..<n], count = n\<rparr>"

definition uf_find :: "UnionFind \<Rightarrow> nat \<Rightarrow> nat" where
  \<comment> \<open>Modelled from the spec: \<open>find(i)\<close>; an index outside the array is its own representative\<close>
  "uf_find u i = (if i < length (parent u) then parent u ! i else i)"

definition uf_union :: "UnionFind \<Rightarrow> nat \<Rightarrow> nat \<Rightarrow> UnionFind" where
  \<comment> \<open>Modelled from the spec: \<open>union(i, j)\<close>\<close>
  "uf_union u i j =
     (let ri = uf_find u i; rj = uf_find u j
      in if ri = rj then u
         else \<lparr>parent = map (\<lambda>p. if p = rj then ri else p) (parent u), count = count u - 1\<rparr>)"

subsection \<open>\<open>GameGrid\<close>\<close>

text \<open>
  The fields of the class, without \<open>height\<close> (pixels, used by the renderer only).
  \<open>grid ! c ! r\<close> is the entry of row \<open>r\<close> of column \<open>c\<close>: \<open>Some\<close> of a colour index, or
  \<open>None\<close> for a hole, an index below the length of the column that holds no element (an
  assignment past the end of a JavaScript array leaves holes, which read as \<open>undefined\<close>).
  Dimensions are JavaScript numbers, so integers; the coordinates the loops produce are
  never negative, so naturals.
\<close>

record GameGrid =
  vside_rows :: int
  rows :: int
  cols :: int
  colorCount :: int
  grid :: "colour list list"
  uf :: UnionFind

definition getNeighbors :: "GameGrid \<Rightarrow> nat \<Rightarrow> nat \<Rightarrow> (nat \<times> nat) list" where
  \<comment> \<open>the neighbours \<open>{r, c}\<close> as pairs \<open>(r, c)\<close>, in the order they are pushed\<close>
  "getNeighbors gg r c =
     (if r > 0 then [(r - 1, c)] else []) @
     (if int r < rows gg - 1 then [(r + 1, c)] else []) @
     (let isRight = ((r + c) mod 2 = 0)
      in if isRight \<and> c > 0 then [(r, c - 1)]
         else if \<not> isRight \<and> int c < cols gg - 1 then [(r, c + 1)]
         else [])"

definition gridAt :: "colour list list \<Rightarrow> nat \<Rightarrow> nat \<Rightarrow> colour" where
  \<comment> \<open>\<open>g[c]?.[r]\<close>\<close>
  "gridAt g c r =
     (if c < length g then (if r < length (g ! c) then g ! c ! r else None) else None)"

definition getColorIndex :: "GameGrid \<Rightarrow> int \<Rightarrow> int \<Rightarrow> int" where
  \<comment> \<open>\<open>this.grid[c]?.[r] ?? 0\<close>; an array has no element at a negative index\<close>
  "getColorIndex gg r c =
     (if 0 \<le> r \<and> 0 \<le> c then
        (case gridAt (grid gg) (nat c) (nat r) of None \<Rightarrow> 0 | Some v \<Rightarrow> v)
      else 0)"

definition inBounds :: "GameGrid \<Rightarrow> nat \<times> nat \<Rightarrow> bool" where
  \<comment> \<open>\<open>n.r >= 0 && n.r < rows && n.c >= 0 && n.c < cols\<close>\<close>
  "inBounds gg n = (int (fst n) < rows gg \<and> int (snd n) < cols gg)"

definition idx :: "GameGrid \<Rightarrow> nat \<Rightarrow> nat \<Rightarrow> nat" where
  \<comment> \<open>\<open>idx = (r, c) => r * cols + c\<close> of \<open>buildUnionFind\<close> and \<open>floodFill\<close>\<close>
  "idx gg r c = r * nat (cols gg) + c"

definition unionCell :: "GameGrid \<Rightarrow> colour list list \<Rightarrow> nat \<times> nat \<Rightarrow> int \<Rightarrow> UnionFind \<Rightarrow> UnionFind" where
  \<comment> \<open>\<open>for (const n of this.getNeighbors(r, c))\<close>: union the cell with every neighbour
      inside the bounds whose entry is the given colour\<close>
  "unionCell gg g cell colorIndex u =
     fold (\<lambda>n u. if inBounds gg n \<and> gridAt g (snd n) (fst n) = Some colorIndex
                  then uf_union u (idx gg (fst cell) (snd cell)) (idx gg (fst n) (snd n))
                  else u)
          (getNeighbors gg (fst cell) (snd cell)) u"

definition buildUnionFind :: "GameGrid \<Rightarrow> UnionFind" where
  \<comment> \<open>reads \<open>rows\<close>, \<open>cols\<close> and \<open>grid\<close> only\<close>
  "buildUnionFind gg =
     (let g = grid gg; totalCells = nat (rows gg * cols gg)
      in if length g = 0 \<or> int (length g) < cols gg \<or> length (g ! 0) = 0
            \<or> int (length (g ! 0)) < rows gg
         then uf_new totalCells
         else fold (\<lambda>r u. fold (\<lambda>c u. case gridAt g c r of
                                          None \<Rightarrow> u
                                        | Some currentColorIndex \<Rightarrow>
                                            unionCell gg g (r, c) currentColorIndex u)
                                [0..<nat (cols gg)] u)
                   [0..<nat (rows gg)] (uf_new totalCells))"

definition GameGrid_new :: "int \<Rightarrow> int \<Rightarrow> int \<Rightarrow> colour list list option \<Rightarrow> GameGrid" where
  \<comment> \<open>the constructor; \<open>None\<close> is a call without the optional \<open>grid\<close>\<close>
  "GameGrid_new vside cs cc g =
     (let gg = \<lparr>vside_rows = vside, rows = 2 * vside + 1, cols = cs, colorCount = max 1 cc,
                grid = (case g of
                          None \<Rightarrow> replicate (nat cs) (replicate (nat (2 * vside + 1)) (Some 0))
                        | Some g' \<Rightarrow> g'),
                uf = uf_new 0\<rparr>
      in gg\<lparr>uf := buildUnionFind gg\<rparr>)"

definition getRegionCount :: "GameGrid \<Rightarrow> nat" where
  "getRegionCount gg = count (uf gg)"

definition clone :: "GameGrid \<Rightarrow> GameGrid" where
  "clone gg = GameGrid_new (vside_rows gg) (cols gg) (colorCount gg) (Some (grid gg))"


subsection \<open>Serialisation\<close>





subsection \<open>\<open>floodFill\<close>\<close>

definition setCell :: "colour list list \<Rightarrow> nat \<times> nat \<Rightarrow> int \<Rightarrow> colour list list" where
  \<comment> \<open>\<open>g[n.c][n.r] = v\<close> where the column \<open>g[n.c]\<close> exists: an index at or past its length
      makes the column that long, with holes before the new entry\<close>
  "setCell g n v =
     (let col = g ! snd n
      in g[snd n := (if fst n < length col then col[fst n := Some v]
                     else col @ replicate (fst n - length col) None @ [Some v])])"

record FillState =
  fs_grid :: "colour list list"
  fs_uf :: UnionFind
  fs_queue :: "(nat \<times> nat) list"
  fs_visited :: "(nat \<times> nat) list"

definition fillVisit ::
  "GameGrid \<Rightarrow> int \<Rightarrow> int \<Rightarrow> nat \<times> nat \<Rightarrow> nat \<times> nat \<Rightarrow> FillState \<Rightarrow> FillState" where
  \<comment> \<open>the body of \<open>for (const n of this.getNeighbors(curr.r, curr.c))\<close>; the keys
      \<open>`${r},${c}`\<close> of \<open>visited\<close> are the pairs themselves\<close>
  "fillVisit gg oldColorIndex newColorIndex cur n st =
     (if n \<in> set (fs_visited st) then st
      else if \<not> inBounds gg n \<or> gridAt (fs_grid st) (snd n) (fst n) = None then st
      else if gridAt (fs_grid st) (snd n) (fst n) = Some oldColorIndex then
        (let g' = setCell (fs_grid st) n newColorIndex;
             u1 = uf_union (fs_uf st) (idx gg (fst cur) (snd cur)) (idx gg (fst n) (snd n));
             u2 = unionCell gg g' n newColorIndex u1
         in \<lparr>fs_grid = g', fs_uf = u2, fs_queue = fs_queue st @ [n],
             fs_visited = fs_visited st @ [n]\<rparr>)
      else st)"

definition fillMeasure :: "GameGrid \<Rightarrow> FillState \<Rightarrow> nat" where
  "fillMeasure gg st =
     2 * card (({..<nat (rows gg)} \<times> {..<nat (cols gg)}) - set (fs_visited st))
       + length (fs_queue st)"

lemma inBounds_iff: "inBounds gg n \<longleftrightarrow> n \<in> {..<nat (rows gg)} \<times> {..<nat (cols gg)}"
  by (cases n) (auto simp: inBounds_def)

lemma fillVisit_measure:
  "fillMeasure gg (fillVisit gg old new cur n st) \<le> fillMeasure gg st"
proof -
  let ?C = "{..<nat (rows gg)} \<times> {..<nat (cols gg)}"
  have "card (?C - insert n (set (fs_visited st))) < card (?C - set (fs_visited st))"
    if "n \<notin> set (fs_visited st)" "inBounds gg n"
  proof (rule psubset_card_mono)
    show "finite (?C - set (fs_visited st))" by simp
    from that show "?C - insert n (set (fs_visited st)) \<subset> ?C - set (fs_visited st)"
      by (auto simp: inBounds_iff)
  qed
  then show ?thesis
    by (auto simp: fillVisit_def fillMeasure_def Let_def)
qed

lemma fold_fillVisit_measure:
  "fillMeasure gg (fold (fillVisit gg old new cur) ns st) \<le> fillMeasure gg st"
proof (induction ns arbitrary: st)
  case Nil
  then show ?case by simp
next
  case (Cons n ns)
  have "fillMeasure gg (fold (fillVisit gg old new cur) ns (fillVisit gg old new cur n st))
          \<le> fillMeasure gg (fillVisit gg old new cur n st)"
    by (rule Cons.IH)
  also have "\<dots> \<le> fillMeasure gg st"
    by (rule fillVisit_measure)
  finally show ?case by simp
qed

function fillLoop :: "GameGrid \<Rightarrow> int \<Rightarrow> int \<Rightarrow> FillState \<Rightarrow> FillState" where
  \<comment> \<open>\<open>while (queue.length > 0) { const curr = queue.shift()!; ... }\<close>\<close>
  "fillLoop gg oldColorIndex newColorIndex st =
     (case fs_queue st of
        [] \<Rightarrow> st
      | cur # rest \<Rightarrow>
          fillLoop gg oldColorIndex newColorIndex
            (fold (fillVisit gg oldColorIndex newColorIndex cur)
                  (getNeighbors gg (fst cur) (snd cur)) (st\<lparr>fs_queue := rest\<rparr>)))"
  by pat_completeness auto
termination
proof (relation "measure (\<lambda>(gg, old, new, st). fillMeasure gg st)")
  show "wf (measure (\<lambda>(gg, old, new, st). fillMeasure gg st))"
    by simp
next
  fix gg :: GameGrid and oldColorIndex newColorIndex :: int and st :: FillState
    and cur :: "nat \<times> nat" and rest :: "(nat \<times> nat) list"
  assume q: "fs_queue st = cur # rest"
  have "fillMeasure gg (fold (fillVisit gg oldColorIndex newColorIndex cur)
          (getNeighbors gg (fst cur) (snd cur)) (st\<lparr>fs_queue := rest\<rparr>))
          \<le> fillMeasure gg (st\<lparr>fs_queue := rest\<rparr>)"
    by (rule fold_fillVisit_measure)
  also have "\<dots> < fillMeasure gg st"
    using q by (simp add: fillMeasure_def)
  finally show "((gg, oldColorIndex, newColorIndex,
      fold (fillVisit gg oldColorIndex newColorIndex cur)
        (getNeighbors gg (fst cur) (snd cur)) (st\<lparr>fs_queue := rest\<rparr>)),
      (gg, oldColorIndex, newColorIndex, st))
      \<in> measure (\<lambda>(gg, old, new, st). fillMeasure gg st)"
    by simp
qed

definition floodFill :: "GameGrid \<Rightarrow> nat \<Rightarrow> nat \<Rightarrow> int \<Rightarrow> error + GameGrid" where
  \<comment> \<open>mutates \<open>grid\<close> and \<open>uf\<close> in place: the result is the object after the call. The
      assignment \<open>g[startC][startR] = newColorIndex\<close> is a \<open>TypeError\<close> where the array has
      no column \<open>startC\<close>.\<close>
  "floodFill gg startR startC newColorIndex =
     (let g = grid gg; oldColorIndex = getColorIndex gg (int startR) (int startC)
      in if oldColorIndex = newColorIndex then Inr gg
         else if \<not> startC < length g then Inl TypeError
         else
           (let g1 = setCell g (startR, startC) newColorIndex;
                u1 = unionCell gg g1 (startR, startC) newColorIndex (uf gg);
                st = fillLoop gg oldColorIndex newColorIndex
                       \<lparr>fs_grid = g1, fs_uf = u1, fs_queue = [(startR, startC)],
                        fs_visited = [(startR, startC)]\<rparr>
            in Inr (gg\<lparr>grid := fs_grid st, uf := fs_uf st\<rparr>)))"


section \<open>\<open>GraphSolver\<close>: building the region graph\<close>

record BuildState =
  regionMap :: "int list"
  regionIdCounter :: nat
  bs_nodes :: graph
  bs_idToCoord :: "(int \<times> (nat \<times> nat)) list"

definition getIdx :: "GameGrid \<Rightarrow> nat \<Rightarrow> nat \<Rightarrow> nat" where
  \<comment> \<open>\<open>getIdx = (r, c) => c * rows + r\<close> of \<open>buildGraph\<close>\<close>
  "getIdx gg r c = c * nat (rows gg) + r"

definition readCell :: "colour list list \<Rightarrow> nat \<Rightarrow> nat \<Rightarrow> error + colour" where
  \<comment> \<open>\<open>grid[c][r]\<close>: a \<open>TypeError\<close> where the array has no column \<open>c\<close>, \<open>undefined\<close> where the
      column has no entry \<open>r\<close>\<close>
  "readCell g c r =
     (if c < length g then Inr (if r < length (g ! c) then g ! c ! r else None)
      else Inl TypeError)"

definition regionVisit ::
  "GameGrid \<Rightarrow> colour \<Rightarrow> nat \<Rightarrow> nat \<times> nat \<Rightarrow> int list \<times> nat \<times> (nat \<times> nat) list
     \<Rightarrow> error + int list \<times> nat \<times> (nat \<times> nat) list" where
  \<comment> \<open>the body of \<open>for (const n of neighbors)\<close> in the local BFS, on the region map, the
      size of the node and the part of the queue not yet taken. A typed array has no
      element outside its length.\<close>
  "regionVisit gg col currentId n st =
     (case st of (rmap, sz, queue) \<Rightarrow>
        if \<not> inBounds gg n then Inr st
        else (let nIdx = getIdx gg (fst n) (snd n)
              in case readCell (grid gg) (snd n) (fst n) of
                   Inl e \<Rightarrow> Inl e
                 | Inr v \<Rightarrow>
                     if v = col then
                       (if nIdx < length rmap \<and> rmap ! nIdx = -1
                        then Inr (rmap[nIdx := int currentId], sz + 1, queue @ [n])
                        else Inr st)
                     else Inr st))"

definition count_free :: "int list \<Rightarrow> nat" where
  "count_free rmap = length (filter (\<lambda>x. x = -1) rmap)"

lemma count_free_update:
  "i < length rmap \<Longrightarrow> rmap ! i = -1 \<Longrightarrow> v \<noteq> -1 \<Longrightarrow>
     Suc (count_free (rmap[i := v])) = count_free rmap"
proof (induction rmap arbitrary: i)
  case Nil
  then show ?case by simp
next
  case (Cons x xs)
  then show ?case by (cases i) (auto simp: count_free_def)
qed

lemma regionVisit_measure:
  "regionVisit gg col currentId n (rmap, sz, queue) = Inr (rmap', sz', queue') \<Longrightarrow>
     2 * count_free rmap' + length queue' \<le> 2 * count_free rmap + length queue"
  using count_free_update [of "getIdx gg (fst n) (snd n)" rmap "int currentId"]
  by (auto simp: regionVisit_def Let_def split: if_splits sum.splits)

lemma foldE_regionVisit_measure:
  "foldE (regionVisit gg col currentId) ns (rmap, sz, queue) = Inr (rmap', sz', queue') \<Longrightarrow>
     2 * count_free rmap' + length queue' \<le> 2 * count_free rmap + length queue"
proof (induction ns arbitrary: rmap sz queue)
  case Nil
  then show ?case by simp
next
  case (Cons n ns)
  from Cons.prems obtain rmap1 sz1 queue1
    where s1: "regionVisit gg col currentId n (rmap, sz, queue) = Inr (rmap1, sz1, queue1)"
      and s2: "foldE (regionVisit gg col currentId) ns (rmap1, sz1, queue1) = Inr (rmap', sz', queue')"
    by (cases "regionVisit gg col currentId n (rmap, sz, queue)") auto
  from s2 have "2 * count_free rmap' + length queue' \<le> 2 * count_free rmap1 + length queue1"
    by (rule Cons.IH)
  with regionVisit_measure [OF s1] show ?case by simp
qed

function regionBfs ::
  "GameGrid \<Rightarrow> colour \<Rightarrow> nat \<Rightarrow> int list \<times> nat \<times> (nat \<times> nat) list \<Rightarrow> error + int list \<times> nat" where
  \<comment> \<open>\<open>while (head < queue.length) { const curr = queue[head++]; ... }\<close>\<close>
  "regionBfs gg col currentId (rmap, sz, []) = Inr (rmap, sz)"
| "regionBfs gg col currentId (rmap, sz, cur # rest) =
     (case foldE (regionVisit gg col currentId) (getNeighbors gg (fst cur) (snd cur))
             (rmap, sz, rest) of
        Inl e \<Rightarrow> Inl e
      | Inr st \<Rightarrow> regionBfs gg col currentId st)"
  by pat_completeness auto
termination
proof (relation "measure (\<lambda>(gg, col, cid, rmap, sz, queue). 2 * count_free rmap + length queue)")
  show "wf (measure (\<lambda>(gg, col, cid, rmap, sz, queue). 2 * count_free rmap + length queue))"
    by simp
next
  fix gg :: GameGrid and col :: colour and currentId :: nat and rmap :: "int list" and sz :: nat
    and cur :: "nat \<times> nat" and rest :: "(nat \<times> nat) list"
    and st :: "int list \<times> nat \<times> (nat \<times> nat) list"
  assume f: "foldE (regionVisit gg col currentId) (getNeighbors gg (fst cur) (snd cur))
                (rmap, sz, rest) = Inr st"
  obtain rmap' sz' queue' where st: "st = (rmap', sz', queue')" by (cases st)
  from foldE_regionVisit_measure [OF f [unfolded st]]
  show "((gg, col, currentId, st), (gg, col, currentId, rmap, sz, cur # rest))
      \<in> measure (\<lambda>(gg, col, cid, rmap, sz, queue). 2 * count_free rmap + length queue)"
    by (simp add: st)
qed

definition labelCell :: "GameGrid \<Rightarrow> nat \<times> nat \<Rightarrow> BuildState \<Rightarrow> error + BuildState" where
  \<comment> \<open>the body of the two \<open>for\<close> loops of step 1, at the cell \<open>(r, c)\<close>; the node enters
      \<open>nodes\<close> before the BFS and is the same object after it, so it is added here with the
      size the BFS leaves\<close>
  "labelCell gg cell bs =
     (let r = fst cell; c = snd cell; i = getIdx gg r c
      in if regionMap bs ! i \<noteq> -1 then Inr bs
         else
           (case readCell (grid gg) c r of
              Inl e \<Rightarrow> Inl e
            | Inr col \<Rightarrow>
                (let currentId = regionIdCounter bs
                 in case regionBfs gg col currentId
                           ((regionMap bs)[i := int currentId], 1, [(r, c)]) of
                      Inl e \<Rightarrow> Inl e
                    | Inr (rmap, sz) \<Rightarrow>
                        Inr \<lparr>regionMap = rmap,
                             regionIdCounter = currentId + 1,
                             bs_nodes = bs_nodes bs @
                               [(int currentId,
                                 \<lparr>id_node = int currentId, color = col, size_node = sz,
                                  neighbors = []\<rparr>)],
                             bs_idToCoord = bs_idToCoord bs @ [(int currentId, (r, c))]\<rparr>)))"

definition allCells :: "GameGrid \<Rightarrow> (nat \<times> nat) list" where
  \<comment> \<open>the cells \<open>(r, c)\<close> in the order of
      \<open>for (let c = 0; c < cols; c++) for (let r = 0; r < rows; r++)\<close>\<close>
  "allCells gg =
     concat (map (\<lambda>c. map (\<lambda>r. (r, c)) [0..<nat (rows gg)]) [0..<nat (cols gg)])"

definition labelRegions :: "GameGrid \<Rightarrow> error + BuildState" where
  \<comment> \<open>step 1 of \<open>buildGraph\<close>, after \<open>new Int32Array(rows * cols).fill(-1)\<close>\<close>
  "labelRegions gg =
     (if rows gg * cols gg < 0 then Inl RangeError
      else foldE (labelCell gg) (allCells gg)
             \<lparr>regionMap = replicate (nat (rows gg * cols gg)) (-1), regionIdCounter = 0,
              bs_nodes = [], bs_idToCoord = []\<rparr>)"

definition addNeighbor :: "int \<Rightarrow> int \<Rightarrow> graph \<Rightarrow> error + graph" where
  \<comment> \<open>\<open>this.nodes.get(a)!.neighbors.add(b)\<close>\<close>
  "addNeighbor a b nodes =
     (case map_of nodes a of
        None \<Rightarrow> Inl TypeError
      | Some _ \<Rightarrow> Inr (map_modify a (\<lambda>n. n\<lparr>neighbors := set_add b (neighbors n)\<rparr>) nodes))"

definition linkCell :: "GameGrid \<Rightarrow> int list \<Rightarrow> nat \<times> nat \<Rightarrow> nat \<times> nat \<Rightarrow> graph \<Rightarrow> error + graph" where
  \<comment> \<open>the body of \<open>for (const n of neighbors)\<close> in step 2\<close>
  "linkCell gg rmap cell n nodes =
     (if \<not> inBounds gg n then Inr nodes
      else (let currentId = rmap ! getIdx gg (fst cell) (snd cell);
                neighborId = rmap ! getIdx gg (fst n) (snd n)
            in if currentId \<noteq> neighborId then
                 (case addNeighbor currentId neighborId nodes of
                    Inl e \<Rightarrow> Inl e
                  | Inr nodes1 \<Rightarrow> addNeighbor neighborId currentId nodes1)
               else Inr nodes))"

definition linkRegions :: "GameGrid \<Rightarrow> int list \<Rightarrow> graph \<Rightarrow> error + graph" where
  \<comment> \<open>step 2 of \<open>buildGraph\<close>\<close>
  "linkRegions gg rmap nodes =
     foldE (\<lambda>cell. foldE (linkCell gg rmap cell) (getNeighbors gg (fst cell) (snd cell)))
       (allCells gg) nodes"

record GraphSolver =
  nodes :: graph
  initialRegionCount :: nat
  idToCoord :: "(int \<times> (nat \<times> nat)) list"

definition buildGraph :: "GameGrid \<Rightarrow> error + GraphSolver" where
  \<comment> \<open>\<open>new GraphSolver(gameGrid)\<close>, which runs \<open>buildGraph\<close>\<close>
  "buildGraph gg =
     (case labelRegions gg of
        Inl e \<Rightarrow> Inl e
      | Inr bs \<Rightarrow>
          (case linkRegions gg (regionMap bs) (bs_nodes bs) of
             Inl e \<Rightarrow> Inl e
           | Inr ns \<Rightarrow> Inr \<lparr>nodes = ns, initialRegionCount = regionIdCounter bs,
                           idToCoord = bs_idToCoord bs\<rparr>))"

subsection \<open>The solve flow of the store\<close>

record SolutionStep =
  region :: "nat \<times> nat"
  color_str :: string

record Solution =
  sol_steps :: nat
  sol_path :: "SolutionStep list"

definition colorAt :: "string list \<Rightarrow> colour \<Rightarrow> string" where
  \<comment> \<open>\<open>colors[p.color] ?? colors[0] ?? '#fff'\<close>\<close>
  "colorAt colors p_color =
     (case p_color of
        Some i \<Rightarrow>
          (if 0 \<le> i \<and> nat i < length colors then colors ! nat i
           else if colors \<noteq> [] then colors ! 0 else ''#fff'')
      | None \<Rightarrow> (if colors \<noteq> [] then colors ! 0 else ''#fff''))"

definition toSolution :: "GraphSolver \<Rightarrow> PathStep list \<Rightarrow> string list \<Rightarrow> Solution" where
  \<comment> \<open>without the field \<open>description\<close>, a display text made of the other two\<close>
  "toSolution gs graphPath colors =
     \<lparr>sol_steps = length graphPath,
      sol_path = map (\<lambda>p. \<lparr>region = (case map_of (idToCoord gs) (step_regionId p) of
                                         None \<Rightarrow> (0, 0) | Some rc \<Rightarrow> rc),
                            color_str = colorAt colors (step_color p)\<rparr>) graphPath\<rparr>"

record SolveFlow =
  graphSolver :: "GraphSolver option"
  solution :: "Solution option"

definition solvePuzzle :: "GameGrid \<Rightarrow> string list \<Rightarrow> SolveFlow" where
  \<comment> \<open>the body of the \<open>setTimeout\<close> callback of \<open>solvePuzzle\<close>: the solver object it
      constructs (\<open>None\<close> when the constructor threw) and the value left in \<open>solution\<close>,
      which the \<open>catch\<close> leaves \<open>null\<close>\<close>
  "solvePuzzle gg colors =
     (case buildGraph gg of
        Inl e \<Rightarrow> \<lparr>graphSolver = None, solution = None\<rparr>
      | Inr gs \<Rightarrow>
          (case solve (nodes gs) (Some 15) of
             Inl e \<Rightarrow> \<lparr>graphSolver = Some gs, solution = None\<rparr>
           | Inr None \<Rightarrow> \<lparr>graphSolver = Some gs, solution = None\<rparr>
           | Inr (Some graphResult) \<Rightarrow>
               \<lparr>graphSolver = Some gs,
                solution = Some (toSolution gs (path graphResult) colors)\<rparr>))"

section \<open>\<open>applyMove\<close> on a store of objects\<close>

text \<open>
  To see what \<open>applyMove\<close> writes to, the objects it works on are put into a store: a
  \<open>Map\<close>, a node and a \<open>Set\<close> are objects at addresses, a node holds the address of its
  \<open>neighbors\<close> set and a map the addresses of its nodes. \<open>new Map()\<close>, \<open>new Set(...)\<close> and an
  object literal take the next free address. A statement is a function from the store to
  an outcome and the store it leaves; an exception leaves the store as it was when thrown.
  Reading an address that holds no object of the expected kind is a \<open>TypeError\<close>; the types
  of the source exclude it.
\<close>

type_synonym addr = nat

datatype obj =
  MapObj "(int \<times> addr) list"
  | NodeObj (o_id: int) (o_color: colour) (o_size: nat) (o_neighbors: addr)
  | SetObj "int list"

type_synonym heap = "obj list"

type_synonym 'a prog = "heap \<Rightarrow> (error + 'a) \<times> heap"

definition ret :: "'a \<Rightarrow> 'a prog" where
  "ret x h = (Inr x, h)"

definition throw :: "error \<Rightarrow> 'a prog" where
  "throw e h = (Inl e, h)"

definition andThen :: "'a prog \<Rightarrow> ('a \<Rightarrow> 'b prog) \<Rightarrow> 'b prog" where
  \<comment> \<open>one statement after another; an exception skips the rest\<close>
  "andThen m f h = (case m h of (Inl e, h') \<Rightarrow> (Inl e, h') | (Inr x, h') \<Rightarrow> f x h')"

primrec forEach :: "('a \<Rightarrow> unit prog) \<Rightarrow> 'a list \<Rightarrow> unit prog" where
  \<comment> \<open>\<open>for (const x of xs) body\<close>\<close>
  "forEach f [] = ret ()"
| "forEach f (x # xs) = andThen (f x) (\<lambda>_. forEach f xs)"

definition alloc :: "obj \<Rightarrow> addr prog" where
  "alloc ob h = (Inr (length h), h @ [ob])"

definition readMap :: "addr \<Rightarrow> (int \<times> addr) list prog" where
  "readMap a h =
     (if a < length h then (case h ! a of MapObj es \<Rightarrow> (Inr es, h) | _ \<Rightarrow> (Inl TypeError, h))
      else (Inl TypeError, h))"

definition readNode :: "addr \<Rightarrow> obj prog" where
  "readNode a h =
     (if a < length h
      then (case h ! a of NodeObj i c s nb \<Rightarrow> (Inr (NodeObj i c s nb), h) | _ \<Rightarrow> (Inl TypeError, h))
      else (Inl TypeError, h))"

definition readSet :: "addr \<Rightarrow> int list prog" where
  "readSet a h =
     (if a < length h then (case h ! a of SetObj xs \<Rightarrow> (Inr xs, h) | _ \<Rightarrow> (Inl TypeError, h))
      else (Inl TypeError, h))"

definition writeObj :: "addr \<Rightarrow> obj \<Rightarrow> unit prog" where
  "writeObj a ob h = (Inr (), h[a := ob])"

definition mapGet :: "addr \<Rightarrow> int \<Rightarrow> addr option prog" where
  \<comment> \<open>\<open>m.get(k)\<close>; \<open>None\<close> is \<open>undefined\<close>\<close>
  "mapGet m k = andThen (readMap m) (\<lambda>es. ret (map_of es k))"

definition mapSet :: "addr \<Rightarrow> int \<Rightarrow> addr \<Rightarrow> unit prog" where
  \<comment> \<open>\<open>m.set(k, r)\<close>: a present key keeps its place, a new one goes to the end\<close>
  "mapSet m k r =
     andThen (readMap m) (\<lambda>es.
       writeObj m (MapObj (if k \<in> fst ` set es
                           then map (\<lambda>kv. if fst kv = k then (k, r) else kv) es
                           else es @ [(k, r)])))"

definition mapDelete :: "addr \<Rightarrow> int \<Rightarrow> unit prog" where
  \<comment> \<open>\<open>m.delete(k)\<close>\<close>
  "mapDelete m k =
     andThen (readMap m) (\<lambda>es. writeObj m (MapObj (filter (\<lambda>kv. fst kv \<noteq> k) es)))"

definition setAdd :: "addr \<Rightarrow> int \<Rightarrow> unit prog" where
  \<comment> \<open>\<open>s.add(x)\<close>\<close>
  "setAdd s x = andThen (readSet s) (\<lambda>xs. writeObj s (SetObj (set_add x xs)))"

definition setDelete :: "addr \<Rightarrow> int \<Rightarrow> unit prog" where
  \<comment> \<open>\<open>s.delete(x)\<close>\<close>
  "setDelete s x = andThen (readSet s) (\<lambda>xs. writeObj s (SetObj (set_delete x xs)))"

definition getNode :: "addr option \<Rightarrow> obj prog" where
  \<comment> \<open>a property access on the result of \<open>get(...)!\<close>: a \<open>TypeError\<close> on \<open>undefined\<close>\<close>
  "getNode r = (case r of None \<Rightarrow> throw TypeError | Some a \<Rightarrow> readNode a)"

definition copyEntry :: "addr \<Rightarrow> int \<times> addr \<Rightarrow> unit prog" where
  \<comment> \<open>\<open>newNodes.set(id, { ...node, neighbors: new Set(node.neighbors) })\<close>\<close>
  "copyEntry newNodes entry =
     andThen (readNode (snd entry)) (\<lambda>node.
     andThen (readSet (o_neighbors node)) (\<lambda>xs.
     andThen (alloc (SetObj xs)) (\<lambda>s.
     andThen (alloc (NodeObj (o_id node) (o_color node) (o_size node) s)) (\<lambda>n.
     mapSet newNodes (fst entry) n))))"

definition collectMerge :: "addr \<Rightarrow> colour \<Rightarrow> int \<Rightarrow> int list \<Rightarrow> int list prog" where
  \<comment> \<open>the body of the loop that fills \<open>neighborsToMerge\<close>\<close>
  "collectMerge newNodes newColor nId acc =
     andThen (mapGet newNodes nId) (\<lambda>r.
       case r of
         None \<Rightarrow> ret acc
       | Some a \<Rightarrow> andThen (readNode a) (\<lambda>neighbor.
           ret (if o_color neighbor = newColor then acc @ [nId] else acc)))"

primrec collectAll :: "addr \<Rightarrow> colour \<Rightarrow> int list \<Rightarrow> int list \<Rightarrow> int list prog" where
  \<comment> \<open>\<open>for (const nId of targetNode.neighbors)\<close>, which writes nothing to the store\<close>
  "collectAll newNodes newColor [] acc = ret acc"
| "collectAll newNodes newColor (nId # rest) acc =
     andThen (collectMerge newNodes newColor nId acc) (collectAll newNodes newColor rest)"

definition mergeDeepH :: "addr \<Rightarrow> addr \<Rightarrow> int \<Rightarrow> int \<Rightarrow> int \<Rightarrow> unit prog" where
  \<comment> \<open>the body of \<open>for (const deepNeighborId of mergeNode.neighbors)\<close>\<close>
  "mergeDeepH newNodes targetNode targetId mergeId deepNeighborId =
     (if deepNeighborId \<noteq> targetId then
        andThen (readNode targetNode) (\<lambda>t.
        andThen (setAdd (o_neighbors t) deepNeighborId) (\<lambda>_.
        andThen (mapGet newNodes deepNeighborId) (\<lambda>r.
        andThen (getNode r) (\<lambda>deepNeighbor.
        andThen (setDelete (o_neighbors deepNeighbor) mergeId) (\<lambda>_.
        setAdd (o_neighbors deepNeighbor) targetId)))))
      else ret ())"

definition mergeOneH :: "addr \<Rightarrow> addr \<Rightarrow> int \<Rightarrow> int \<Rightarrow> unit prog" where
  \<comment> \<open>the body of \<open>for (const mergeId of neighborsToMerge)\<close>. The inner loop runs over the
      elements \<open>mergeNode.neighbors\<close> has when it starts: its body adds to that set nothing
      but \<open>targetId\<close>, which the guard skips, and deletes from it nothing but the element
      it is at.\<close>
  "mergeOneH newNodes targetNode targetId mergeId =
     andThen (mapGet newNodes mergeId) (\<lambda>r.
     andThen (getNode r) (\<lambda>mergeNode.
     andThen (readNode targetNode) (\<lambda>t.
     andThen (writeObj targetNode
                (NodeObj (o_id t) (o_color t) (o_size t + o_size mergeNode) (o_neighbors t))) (\<lambda>_.
     andThen (setDelete (o_neighbors t) mergeId) (\<lambda>_.
     andThen (readSet (o_neighbors mergeNode)) (\<lambda>deep.
     andThen (forEach (mergeDeepH newNodes targetNode targetId mergeId) deep) (\<lambda>_.
     mapDelete newNodes mergeId)))))))"

definition applyMoveH :: "addr \<Rightarrow> int \<Rightarrow> colour \<Rightarrow> addr prog" where
  \<comment> \<open>\<open>applyMove(nodes, targetId, newColor)\<close>, \<open>nodesAddr\<close> the address of the input map; the
      result is the address of the map returned. The copy loop reads the entries of
      \<open>nodes\<close> once: its body writes to \<open>newNodes\<close> and to new objects.\<close>
  "applyMoveH nodesAddr targetId newColor =
     andThen (alloc (MapObj [])) (\<lambda>newNodes.
     andThen (readMap nodesAddr) (\<lambda>entries.
     andThen (forEach (copyEntry newNodes) entries) (\<lambda>_.
     andThen (mapGet newNodes targetId) (\<lambda>r.
     case r of
       None \<Rightarrow> throw TypeError
     | Some targetNode \<Rightarrow>
     andThen (readNode targetNode) (\<lambda>t.
     andThen (writeObj targetNode
                (NodeObj (o_id t) newColor (o_size t) (o_neighbors t))) (\<lambda>_.
     andThen (readSet (o_neighbors t)) (\<lambda>targetNeighbors.
     andThen (collectAll newNodes newColor targetNeighbors []) (\<lambda>neighborsToMerge.
     andThen (forEach (mergeOneH newNodes targetNode targetId) neighborsToMerge) (\<lambda>_.
     andThen (setDelete (o_neighbors t) targetId) (\<lambda>_.
     ret newNodes))))))))))"

definition lookup :: "heap \<Rightarrow> addr \<Rightarrow> obj option" where
  "lookup h a = (if a < length h then Some (h ! a) else None)"

definition readNodeVal :: "heap \<Rightarrow> addr \<Rightarrow> RegionNode option" where
  \<comment> \<open>the node at an address, as a value\<close>
  "readNodeVal h a =
     (case lookup h a of
        Some (NodeObj i c s nb) \<Rightarrow>
          (case lookup h nb of
             Some (SetObj xs) \<Rightarrow> Some \<lparr>id_node = i, color = c, size_node = s, neighbors = xs\<rparr>
           | _ \<Rightarrow> None)
      | _ \<Rightarrow> None)"

definition readGraph :: "heap \<Rightarrow> addr \<Rightarrow> graph option" where
  \<comment> \<open>the map at an address, as a value: its keys in order, each with its node\<close>
  "readGraph h m =
     (case lookup h m of
        Some (MapObj es) \<Rightarrow>
          those (map (\<lambda>kv. map_option (Pair (fst kv)) (readNodeVal h (snd kv))) es)
      | _ \<Rightarrow> None)"

section \<open>The properties of the region graph and of the search\<close>

text \<open>
  What a \<open>Map<number, RegionNode>\<close> of region nodes is as a list: no key twice, every node
  stored under its own \<open>id\<close>, no neighbour twice in a \<open>Set\<close>.
\<close>

definition mapWellFormed :: "graph \<Rightarrow> bool" where
  "mapWellFormed ns \<longleftrightarrow>
     distinct (map fst ns) \<and> (\<forall>(k, n) \<in> set ns. id_node n = k \<and> distinct (neighbors n))"

text \<open>The node invariants of the data model, one predicate each.\<close>

definition symmetricNeighbors :: "graph \<Rightarrow> bool" where
  "symmetricNeighbors ns \<longleftrightarrow>
     (\<forall>(k, n) \<in> set ns. \<forall>j \<in> set (neighbors n).
        case map_of ns j of None \<Rightarrow> True | Some n' \<Rightarrow> k \<in> set (neighbors n'))"

definition noSelfNeighbor :: "graph \<Rightarrow> bool" where
  "noSelfNeighbor ns \<longleftrightarrow> (\<forall>(k, n) \<in> set ns. k \<notin> set (neighbors n))"

definition neighborsAreKeys :: "graph \<Rightarrow> bool" where
  "neighborsAreKeys ns \<longleftrightarrow> (\<forall>(k, n) \<in> set ns. set (neighbors n) \<subseteq> fst ` set ns)"

definition neighborColorsDiffer :: "graph \<Rightarrow> bool" where
  "neighborColorsDiffer ns \<longleftrightarrow>
     (\<forall>(k, n) \<in> set ns. \<forall>j \<in> set (neighbors n).
        case map_of ns j of None \<Rightarrow> True | Some n' \<Rightarrow> color n' \<noteq> color n)"

definition regionGraph :: "graph \<Rightarrow> bool" where
  "regionGraph ns \<longleftrightarrow>
     mapWellFormed ns \<and> symmetricNeighbors ns \<and> noSelfNeighbor ns \<and> neighborsAreKeys ns \<and>
     neighborColorsDiffer ns"

text \<open>
  The move space of the claims: a move recolours one region to the colour of one of its
  neighbours and is applied by \<open>applyMove\<close>; a sequence of moves reaches the goal when
  every move is one of the graph it is applied to and the last graph has one node.
\<close>

definition isMove :: "graph \<Rightarrow> PathStep \<Rightarrow> bool" where
  "isMove ns p =
     (case map_of ns (step_regionId p) of
        None \<Rightarrow> False
      | Some n \<Rightarrow>
          list_ex (\<lambda>j. case map_of ns j of None \<Rightarrow> False | Some n' \<Rightarrow> color n' = step_color p)
                  (neighbors n))"

fun playMoves :: "graph \<Rightarrow> PathStep list \<Rightarrow> graph option" where
  "playMoves ns [] = Some ns"
| "playMoves ns (p # ps) =
     (if isMove ns p then
        (case applyMove ns (step_regionId p) (step_color p) of
           Inl e \<Rightarrow> None
         | Inr ns' \<Rightarrow> playMoves ns' ps)
      else None)"

definition reachesGoal :: "graph \<Rightarrow> PathStep list \<Rightarrow> bool" where
  "reachesGoal ns ps = (case playMoves ns ps of None \<Rightarrow> False | Some ns' \<Rightarrow> length ns' = 1)"

section \<open>Well-formed grids and example boards\<close>

definition gridShape :: "GameGrid \<Rightarrow> bool" where
  \<comment> \<open>the shape invariant of the data model: exactly \<open>cols\<close> columns of exactly \<open>rows\<close>
      entries each\<close>
  "gridShape gg =
     (length (grid gg) = nat (cols gg) \<and> (\<forall>col \<in> set (grid gg). length col = nat (rows gg)))"

definition noHoles :: "GameGrid \<Rightarrow> bool" where
  \<comment> \<open>every entry of the colour array is a colour index\<close>
  "noHoles gg = (\<forall>col \<in> set (grid gg). None \<notin> set col)"

definition rainbowColumn :: GameGrid where
  \<comment> \<open>one column of thirteen cells, each of its own colour\<close>
  "rainbowColumn = GameGrid_new 6 1 13 (Some (map (map Some) [[0, 1, 2, 3, 4, 5, 6, 7, 8, 9, 10, 11, 12]]))"

definition rainbowGraph :: graph where
  "rainbowGraph = (case buildGraph rainbowColumn of Inl e \<Rightarrow> [] | Inr gs \<Rightarrow> nodes gs)"

definition stripes :: GameGrid where
  \<comment> \<open>two columns of three cells in colour 1\<close>
  "stripes = GameGrid_new 1 2 3 (Some (map (map Some) [[1, 1, 1], [1, 1, 1]]))"

definition twoColumns :: GameGrid where
  \<comment> \<open>two columns of three cells in three colours\<close>
  "twoColumns = GameGrid_new 1 2 3 (Some (map (map Some) [[0, 1, 2], [2, 1, 0]]))"

definition twoColumnsGraph :: graph where
  "twoColumnsGraph = (case buildGraph twoColumns of Inl e \<Rightarrow> [] | Inr gs \<Rightarrow> nodes gs)"

definition pathHeap :: heap where
  \<comment> \<open>three regions in a row, coloured 0, 1, 0\<close>
  "pathHeap =
     [MapObj [(0, 1), (1, 3), (2, 5)],
      NodeObj 0 (Some 0) 2 2, SetObj [1],
      NodeObj 1 (Some 1) 1 4, SetObj [0, 2],
      NodeObj 2 (Some 0) 3 6, SetObj [1]]"


definition noColumns :: GameGrid where
  \<comment> \<open>one row and one column declared, and an array without columns\<close>
  "noColumns = GameGrid_new 0 1 1 (Some [])"

section \<open>Grids with a consistent Union-Find\<close>

text \<open>
  The predicates in which the claims about the grid are stated. A cell is a pair
  \<open>(r, c)\<close>; its number in the Union-Find is \<open>r * cols + c\<close>.
\<close>

definition wfDims :: "GameGrid \<Rightarrow> bool" where
  \<comment> \<open>the dimensions the constructor sets up: \<open>rows = 2 * vside_rows + 1\<close>, nothing negative\<close>
  "wfDims gg \<longleftrightarrow> 0 \<le> vside_rows gg \<and> rows gg = 2 * vside_rows gg + 1 \<and> 0 \<le> cols gg"

definition shapeOf :: "GameGrid \<Rightarrow> colour list list \<Rightarrow> bool" where
  \<comment> \<open>a colour array of exactly \<open>cols\<close> columns of \<open>rows\<close> entries, each a colour index\<close>
  "shapeOf gg g \<longleftrightarrow>
     length g = nat (cols gg) \<and> (\<forall>col \<in> set g. length col = nat (rows gg) \<and> None \<notin> set col)"

definition cellAt :: "colour list list \<Rightarrow> nat \<times> nat \<Rightarrow> colour" where
  \<comment> \<open>the colour of the cell \<open>(r, c)\<close>, \<open>undefined\<close> where the array has no entry for it\<close>
  "cellAt g a = gridAt g (snd a) (fst a)"

definition idxOf :: "GameGrid \<Rightarrow> nat \<times> nat \<Rightarrow> nat" where
  \<comment> \<open>the Union-Find element of a cell\<close>
  "idxOf gg a = idx gg (fst a) (snd a)"

definition cellCount :: "GameGrid \<Rightarrow> nat" where
  \<comment> \<open>\<open>rows * cols\<close>\<close>
  "cellCount gg = nat (rows gg) * nat (cols gg)"

definition cells :: "GameGrid \<Rightarrow> (nat \<times> nat) set" where
  \<comment> \<open>the cells inside the bounds\<close>
  "cells gg = {a. inBounds gg a}"

definition edgesFrom :: "GameGrid \<Rightarrow> colour list list \<Rightarrow> (nat \<times> nat) set \<Rightarrow> (nat \<times> nat) set" where
  \<comment> \<open>the pairs of elements of a cell of \<open>S\<close> and a neighbour of the same colour\<close>
  "edgesFrom gg g S =
     (\<Union>a \<in> S. (\<lambda>b. (idxOf gg a, idxOf gg b)) `
        {b \<in> set (getNeighbors gg (fst a) (snd a)). cellAt g b = cellAt g a})"

definition conn :: "(nat \<times> nat) set \<Rightarrow> (nat \<times> nat) set" where
  \<comment> \<open>connected by a chain of edges, in either direction\<close>
  "conn E = (E \<union> E\<inverse>)\<^sup>*"

definition ufInv :: "nat \<Rightarrow> UnionFind \<Rightarrow> bool" where
  \<comment> \<open>the representation of the Union-Find model: every parent entry is a representative and
      \<open>count\<close> is the number of representatives\<close>
  "ufInv n u \<longleftrightarrow>
     length (parent u) = n \<and>
     (\<forall>i<n. parent u ! i < n \<and> parent u ! (parent u ! i) = parent u ! i) \<and>
     count u = card (set (parent u))"

definition ufRep :: "nat \<Rightarrow> UnionFind \<Rightarrow> (nat \<times> nat) set \<Rightarrow> bool" where
  \<comment> \<open>two elements have the same representative exactly when the edges \<open>E\<close> connect them\<close>
  "ufRep n u E \<longleftrightarrow>
     ufInv n u \<and> E \<subseteq> {..<n} \<times> {..<n} \<and>
     (\<forall>x<n. \<forall>y<n. uf_find u x = uf_find u y \<longleftrightarrow> (x, y) \<in> conn E)"

definition consistent :: "GameGrid \<Rightarrow> bool" where
  \<comment> \<open>the Union-Find of the grid is the partition of the cells into regions: maximal sets
      of cells of one colour connected through \<open>getNeighbors\<close>\<close>
  "consistent gg \<longleftrightarrow>
     wfDims gg \<and> gridShape gg \<and> noHoles gg \<and>
     ufRep (cellCount gg) (uf gg) (edgesFrom gg (grid gg) (cells gg))"

definition sameComponent :: "GameGrid \<Rightarrow> UnionFind \<Rightarrow> nat \<times> nat \<Rightarrow> nat \<times> nat \<Rightarrow> bool" where
  \<comment> \<open>\<open>u.find(idx(a)) === u.find(idx(b))\<close>\<close>
  "sameComponent gg u a b \<longleftrightarrow>
     uf_find u (idx gg (fst a) (snd a)) = uf_find u (idx gg (fst b) (snd b))"

text \<open>A sequence of \<open>floodFill(startR, startC, newColorIndex)\<close> calls on one grid.\<close>

fun floodFills :: "GameGrid \<Rightarrow> (nat \<times> nat \<times> int) list \<Rightarrow> error + GameGrid" where
  "floodFills gg [] = Inr gg"
| "floodFills gg ((startR, startC, newColorIndex) # calls) =
     (case floodFill gg startR startC newColorIndex of
        Inl e \<Rightarrow> Inl e
      | Inr gg' \<Rightarrow> floodFills gg' calls)"

text \<open>The graphs of the solver: what \<open>buildGraph\<close> makes of a grid, and what
  \<open>applyMove\<close> makes of such a graph.\<close>

inductive_set solverGraphs :: "graph set" where
  built: "buildGraph gg = Inr gs \<Longrightarrow> nodes gs \<in> solverGraphs"
| moved: "ns \<in> solverGraphs \<Longrightarrow> applyMove ns targetId newColor = Inr ns' \<Longrightarrow> ns' \<in> solverGraphs"

section \<open>Maps and sets as lists\<close>

lemma set_set_add [simp]: "set (set_add x xs) = insert x (set xs)"
  by (auto simp: set_add_def)

lemma set_set_delete [simp]: "set (set_delete x xs) = set xs - {x}"
  by (auto simp: set_delete_def)

lemma distinct_set_add [simp]: "distinct xs \<Longrightarrow> distinct (set_add x xs)"
  by (simp add: set_add_def)

lemma distinct_set_delete [simp]: "distinct xs \<Longrightarrow> distinct (set_delete x xs)"
  by (simp add: set_delete_def distinct_removeAll)

lemma keys_map_modify [simp]: "map fst (map_modify k f ns) = map fst ns"
  by (induction ns) (auto simp: map_modify_def)

lemma keyset_map_modify [simp]: "fst ` set (map_modify k f ns) = fst ` set ns"
  by (metis keys_map_modify list.set_map)

lemma map_of_map_modify [simp]:
  "map_of (map_modify k f ns) k' = (if k' = k then map_option f (map_of ns k) else map_of ns k')"
  by (induction ns) (auto simp: map_modify_def)

lemma map_of_map_delete [simp]:
  "map_of (map_delete k ns) k' = (if k' = k then None else map_of ns k')"
  by (induction ns) (auto simp: map_delete_def)

lemma keys_map_delete: "map fst (map_delete k ns) = filter (\<lambda>k'. k' \<noteq> k) (map fst ns)"
  by (induction ns) (auto simp: map_delete_def)

lemma distinct_map_delete [simp]:
  "distinct (map fst ns) \<Longrightarrow> distinct (map fst (map_delete k ns))"
  by (simp add: map_delete_def distinct_map_filter)

lemma length_map_modify [simp]: "length (map_modify k f ns) = length ns"
  by (simp add: map_modify_def)

text \<open>The inner loop\<close>

definition sameBut :: "RegionNode \<Rightarrow> RegionNode \<Rightarrow> bool" where
  "sameBut n n' \<longleftrightarrow> id_node n' = id_node n \<and> color n' = color n \<and> size_node n' = size_node n \<and> (distinct (neighbors n) \<longrightarrow> distinct (neighbors n'))"

lemma mergeDeep_step:
  assumes "d \<noteq> t \<longrightarrow> map_of ns d \<noteq> None"
  shows "\<exists>ns'. mergeDeep t m d ns = Inr ns' \<and> map fst ns' = map fst ns \<and>
           (\<forall>k n. map_of ns k = Some n \<longrightarrow>
              (\<exists>n'. map_of ns' k = Some n' \<and> sameBut n n' \<and>
                 set (neighbors n') =
                   (if d = t then set (neighbors n)
                    else if k = d then insert t (set (neighbors n) - {m})
                    else if k = t then insert d (set (neighbors n))
                    else set (neighbors n))))"
  using assms by (auto simp: mergeDeep_def Let_def sameBut_def split: option.splits)

lemma foldE_mergeDeep:
  assumes "\<forall>d \<in> set ds. d \<noteq> t \<longrightarrow> map_of ns d \<noteq> None"
  shows "\<exists>ns'. foldE (mergeDeep t m) ds ns = Inr ns' \<and> map fst ns' = map fst ns \<and>
           (\<forall>k n. map_of ns k = Some n \<longrightarrow>
              (\<exists>n'. map_of ns' k = Some n' \<and> sameBut n n' \<and>
                 set (neighbors n') =
                   (if k = t then set (neighbors n) \<union> (set ds - {t})
                    else if k \<in> set ds then insert t (set (neighbors n) - {m})
                    else set (neighbors n))))"
  using assms
proof (induction ds arbitrary: ns)
  case Nil
  then show ?case by (simp add: sameBut_def)
next
  case (Cons d ds)
  from Cons.prems have "d \<noteq> t \<longrightarrow> map_of ns d \<noteq> None" by simp
  from mergeDeep_step [OF this, of m] obtain ns1 where
    s1: "mergeDeep t m d ns = Inr ns1" and k1: "map fst ns1 = map fst ns" and
    l1: "\<And>k n. map_of ns k = Some n \<Longrightarrow>
              (\<exists>n'. map_of ns1 k = Some n' \<and> sameBut n n' \<and>
                 set (neighbors n') =
                   (if d = t then set (neighbors n)
                    else if k = d then insert t (set (neighbors n) - {m})
                    else if k = t then insert d (set (neighbors n))
                    else set (neighbors n)))"
    by blast
  have "\<forall>d \<in> set ds. d \<noteq> t \<longrightarrow> map_of ns1 d \<noteq> None"
  proof (intro ballI impI)
    fix d' assume "d' \<in> set ds" "d' \<noteq> t"
    with Cons.prems obtain n where "map_of ns d' = Some n" by auto
    from l1 [OF this] show "map_of ns1 d' \<noteq> None" by auto
  qed
  from Cons.IH [OF this] obtain ns' where
    s2: "foldE (mergeDeep t m) ds ns1 = Inr ns'" and k2: "map fst ns' = map fst ns1" and
    l2: "\<And>k n. map_of ns1 k = Some n \<Longrightarrow>
              (\<exists>n'. map_of ns' k = Some n' \<and> sameBut n n' \<and>
                 set (neighbors n') =
                   (if k = t then set (neighbors n) \<union> (set ds - {t})
                    else if k \<in> set ds then insert t (set (neighbors n) - {m})
                    else set (neighbors n)))"
    by blast
  have "\<exists>n'. map_of ns' k = Some n' \<and> sameBut n n' \<and>
                 set (neighbors n') =
                   (if k = t then set (neighbors n) \<union> (set (d # ds) - {t})
                    else if k \<in> set (d # ds) then insert t (set (neighbors n) - {m})
                    else set (neighbors n))" if kn: "map_of ns k = Some n" for k n
  proof -
    from l1 [OF kn] obtain n1 where n1: "map_of ns1 k = Some n1"
      and sb: "sameBut n n1"
      and nb: "set (neighbors n1) = (if d = t then set (neighbors n)
               else if k = d then insert t (set (neighbors n) - {m})
               else if k = t then insert d (set (neighbors n))
               else set (neighbors n))"
      by blast
    from l2 [OF n1] obtain n' where n': "map_of ns' k = Some n'" "sameBut n1 n'"
      "set (neighbors n') =
                   (if k = t then set (neighbors n1) \<union> (set ds - {t})
                    else if k \<in> set ds then insert t (set (neighbors n1) - {m})
                    else set (neighbors n1))" by blast
    from sb n'(2) have "sameBut n n'" by (auto simp: sameBut_def)
    moreover from n'(3) nb have "set (neighbors n') =
                   (if k = t then set (neighbors n) \<union> (set (d # ds) - {t})
                    else if k \<in> set (d # ds) then insert t (set (neighbors n) - {m})
                    else set (neighbors n))"
      by (auto split: if_splits)
    ultimately show ?thesis using n'(1) by blast
  qed
  with s1 s2 k1 k2 show ?case by simp
qed

section \<open>One merge preserves the invariants\<close>

definition absInv :: "int set \<Rightarrow> (int \<Rightarrow> int set) \<Rightarrow> (int \<Rightarrow> colour) \<Rightarrow> int \<Rightarrow> int set \<Rightarrow> bool" where
  "absInv D N C t R \<longleftrightarrow>
     (\<forall>k \<in> D. k \<notin> N k \<and>
        (\<forall>j \<in> N k. j \<in> D \<and> k \<in> N j \<and> (C j = C k \<longrightarrow> (k = t \<and> j \<in> R) \<or> (j = t \<and> k \<in> R))))"

lemma absInv_sym: "absInv D N C t R \<Longrightarrow> k \<in> D \<Longrightarrow> j \<in> N k \<Longrightarrow> j \<in> D \<and> k \<in> N j"
  unfolding absInv_def by blast

lemma absInv_noself: "absInv D N C t R \<Longrightarrow> k \<in> D \<Longrightarrow> k \<notin> N k"
  unfolding absInv_def by blast

lemma absInv_col:
  "absInv D N C t R \<Longrightarrow> k \<in> D \<Longrightarrow> j \<in> N k \<Longrightarrow> C j = C k \<Longrightarrow> (k = t \<and> j \<in> R) \<or> (j = t \<and> k \<in> R)"
  unfolding absInv_def by blast

lemma absInv_step:
  assumes inv: "absInv D N C t (insert r R)"
    and r: "r \<in> D" "r \<noteq> t" "C r = c" "r \<in> N t"
    and t: "t \<in> D" "C t = c"
    and D': "D' = D - {r}"
    and Nt: "N' t = (N t - {r}) \<union> (N r - {t})"
    and Nd: "\<forall>k \<in> N r - {t}. N' k = insert t (N k - {r})"
    and No: "\<forall>k \<in> D - {r}. k \<noteq> t \<and> k \<notin> N r \<longrightarrow> N' k = N k"
  shows "absInv D' N' C t R"
proof -
  note sym = absInv_sym [OF inv] and noself = absInv_noself [OF inv] and col = absInv_col [OF inv]
  have tr: "t \<in> N r" using sym [OF t(1) r(4)] by simp
  have tr': "t \<noteq> r" using r(2) by simp
  have deepcol: "C d \<noteq> c" if "d \<in> N r" "d \<noteq> t" for d
  proof
    assume "C d = c"
    then have "C d = C r" using r(3) by simp
    from col [OF r(1) that(1) this] r(2) that(2) show False by blast
  qed
  have deepD: "d \<in> D \<and> d \<noteq> r \<and> r \<in> N d" if "d \<in> N r" for d
    using sym [OF r(1) that] noself [OF r(1)] that by blast
  have rN: "k \<in> N r" if "k \<in> D" "r \<in> N k" for k
    using sym [OF that] by simp
  have N'cases: "N' k = (if k = t then (N t - {r}) \<union> (N r - {t})
                         else if k \<in> N r then insert t (N k - {r}) else N k)" if "k \<in> D" "k \<noteq> r" for k
    using that Nt Nd No by simp
  have memb: "j \<in> D \<and> j \<noteq> r \<and> j \<noteq> k \<and> k \<in> N' j \<and>
              (j \<in> N k \<or> (k = t \<and> j \<in> N r \<and> j \<noteq> t) \<or> (k \<in> N r \<and> k \<noteq> t \<and> j = t))"
    if k: "k \<in> D" "k \<noteq> r" and j: "j \<in> N' k" for k j
  proof -
    consider (T) "k = t" | (Dp) "k \<noteq> t" "k \<in> N r" | (O) "k \<noteq> t" "k \<notin> N r" by blast
    then show ?thesis
    proof cases
      case T
      with j N'cases [OF k] have "(j \<in> N t \<and> j \<noteq> r) \<or> (j \<in> N r \<and> j \<noteq> t)" by simp
      then show ?thesis
      proof
        assume a: "j \<in> N t \<and> j \<noteq> r"
        then have jD: "j \<in> D" "t \<in> N j" using sym [OF t(1)] by blast+
        have jr: "j \<noteq> r" using a by simp
        have "j \<noteq> t" using a noself [OF t(1)] by blast
        moreover have "t \<in> N' j" using N'cases [OF jD(1) jr] jD(2) r(2) \<open>j \<noteq> t\<close> by auto
        ultimately show ?thesis using T a jD by blast
      next
        assume a: "j \<in> N r \<and> j \<noteq> t"
        then have jD: "j \<in> D" "j \<noteq> r" using deepD by blast+
        note jr = jD(2)
        have "t \<in> N' j" using N'cases [OF jD(1) jr] a by auto
        then show ?thesis using T a jD by blast
      qed
    next
      case Dp
      with j N'cases [OF k] have "j = t \<or> (j \<in> N k \<and> j \<noteq> r)" by simp
      then show ?thesis
      proof
        assume a: "j = t"
        have "k \<in> N' t" using N'cases [OF t(1) tr'] Dp by auto
        then show ?thesis using a Dp t(1) r(2) by blast
      next
        assume a: "j \<in> N k \<and> j \<noteq> r"
        then have jD: "j \<in> D" "k \<in> N j" using sym [OF k(1)] by blast+
        have jk: "j \<noteq> k" using a noself [OF k(1)] by blast
        have jr: "j \<noteq> r" using a by simp
        have "k \<in> N' j" using N'cases [OF jD(1) jr] jD(2) k(2) Dp by auto
        then show ?thesis using a jD jk by blast
      qed
    next
      case O
      with j N'cases [OF k] have a: "j \<in> N k" by simp
      then have jD: "j \<in> D" "k \<in> N j" using sym [OF k(1)] by blast+
      have jr: "j \<noteq> r" using rN [OF k(1)] a O by blast
      have jk: "j \<noteq> k" using a noself [OF k(1)] by blast
      have "k \<in> N' j" using N'cases [OF jD(1) jr] jD(2) k(2) O by auto
      then show ?thesis using a jD jr jk by blast
    qed
  qed
  have selfs: "k \<notin> N' k" if k: "k \<in> D" "k \<noteq> r" for k
    using memb [OF k] by blast
  have cols: "(k = t \<and> j \<in> R) \<or> (j = t \<and> k \<in> R)"
    if k: "k \<in> D" "k \<noteq> r" and j: "j \<in> N' k" and cc: "C j = C k" for k j
  proof -
    from memb [OF k j] have jf: "j \<in> D" "j \<noteq> r"
      and disj: "j \<in> N k \<or> (k = t \<and> j \<in> N r \<and> j \<noteq> t) \<or> (k \<in> N r \<and> k \<noteq> t \<and> j = t)"
      by blast+
    from disj show ?thesis
    proof (elim disjE)
      assume "j \<in> N k"
      from col [OF k(1) this cc] k(2) jf(2) show ?thesis by blast
    next
      assume a: "k = t \<and> j \<in> N r \<and> j \<noteq> t"
      then have "C j \<noteq> c" using deepcol by blast
      with cc a t(2) show ?thesis by simp
    next
      assume a: "k \<in> N r \<and> k \<noteq> t \<and> j = t"
      then have "C k \<noteq> c" using deepcol by blast
      with cc a t(2) show ?thesis by simp
    qed
  qed
  show ?thesis
    unfolding absInv_def D'
  proof (intro ballI conjI impI)
    fix k assume "k \<in> D - {r}"
    then show "k \<notin> N' k" using selfs by blast
  next
    fix k j assume "k \<in> D - {r}" "j \<in> N' k"
    then show "j \<in> D - {r}" using memb [of k j] by blast
  next
    fix k j assume "k \<in> D - {r}" "j \<in> N' k"
    then show "k \<in> N' j" using memb [of k j] by blast
  next
    fix k j assume "k \<in> D - {r}" "j \<in> N' k" "C j = C k"
    then show "(k = t \<and> j \<in> R) \<or> (j = t \<and> k \<in> R)" using cols [of k j] by blast
  qed
qed


definition nbrsOf :: "graph \<Rightarrow> int \<Rightarrow> int set" where
  "nbrsOf ns k = (case map_of ns k of None \<Rightarrow> {} | Some n \<Rightarrow> set (neighbors n))"

definition colorOf :: "graph \<Rightarrow> int \<Rightarrow> colour" where
  "colorOf ns k = (case map_of ns k of None \<Rightarrow> None | Some n \<Rightarrow> color n)"

definition wellKeyed :: "graph \<Rightarrow> bool" where
  "wellKeyed ns \<longleftrightarrow>
     distinct (map fst ns) \<and>
     (\<forall>k n. map_of ns k = Some n \<longrightarrow> id_node n = k \<and> distinct (neighbors n))"

definition quasiInv :: "graph \<Rightarrow> int \<Rightarrow> int set \<Rightarrow> bool" where
  "quasiInv ns t R \<longleftrightarrow> wellKeyed ns \<and> absInv (fst ` set ns) (nbrsOf ns) (colorOf ns) t R"

lemma keys_iff: "k \<in> fst ` set ns \<longleftrightarrow> map_of ns k \<noteq> None"
  by (simp add: map_of_eq_None_iff)

lemma mergeOne_step:
  assumes inv: "quasiInv ns t (insert r R)"
    and t: "map_of ns t = Some T" "color T = c"
    and r: "map_of ns r = Some M" "color M = c" "r \<noteq> t" "r \<in> set (neighbors T)"
  shows "\<exists>ns' T'. mergeOne t r ns = Inr ns' \<and> quasiInv ns' t R \<and>
           map_of ns' t = Some T' \<and> color T' = c \<and> set (neighbors T) - {r} \<subseteq> set (neighbors T') \<and>
           map_of ns' r = None \<and>
           (\<forall>k. k \<noteq> r \<longrightarrow> colorOf ns' k = colorOf ns k \<and> (map_of ns' k = None \<longleftrightarrow> map_of ns k = None)) \<and>
           map fst ns' = filter (\<lambda>k. k \<noteq> r) (map fst ns)"
proof -
  let ?D = "fst ` set ns"
  from inv have wk: "wellKeyed ns" and ai: "absInv ?D (nbrsOf ns) (colorOf ns) t (insert r R)"
    by (auto simp: quasiInv_def)
  have tD: "t \<in> ?D" and rD: "r \<in> ?D" using t r by (auto simp: keys_iff)
  have Nr: "nbrsOf ns r = set (neighbors M)" and Nt: "nbrsOf ns t = set (neighbors T)"
    using t r by (auto simp: nbrsOf_def)
  let ?f = "\<lambda>n. n\<lparr>size_node := size_node n + size_node M,
                  neighbors := set_delete r (neighbors n)\<rparr>"
  let ?ns1 = "map_modify t ?f ns"
  have pre: "\<forall>d \<in> set (neighbors M). d \<noteq> t \<longrightarrow> map_of ?ns1 d \<noteq> None"
  proof (intro ballI impI)
    fix d assume "d \<in> set (neighbors M)" "d \<noteq> t"
    then have "d \<in> nbrsOf ns r" using Nr by simp
    from absInv_sym [OF ai rD this] have "d \<in> ?D" by simp
    then show "map_of ?ns1 d \<noteq> None" using \<open>d \<noteq> t\<close> by (simp add: keys_iff)
  qed
  from foldE_mergeDeep [OF pre, of r] obtain ns2 where
    f2: "foldE (mergeDeep t r) (neighbors M) ?ns1 = Inr ns2" and
    k2: "map fst ns2 = map fst ?ns1" and
    l2: "\<And>k n. map_of ?ns1 k = Some n \<Longrightarrow>
              (\<exists>n'. map_of ns2 k = Some n' \<and> sameBut n n' \<and>
                 set (neighbors n') =
                   (if k = t then set (neighbors n) \<union> (set (neighbors M) - {t})
                    else if k \<in> set (neighbors M) then insert t (set (neighbors n) - {r})
                    else set (neighbors n)))"
    by blast
  let ?ns' = "map_delete r ns2"
  have res: "mergeOne t r ns = Inr ?ns'"
    using r(1) f2 by (simp add: mergeOne_def)
  have keys': "map fst ?ns' = filter (\<lambda>k. k \<noteq> r) (map fst ns)"
    using k2 by (simp add: keys_map_delete)
  have D': "fst ` set ?ns' = ?D - {r}"
  proof -
    have "fst ` set ?ns' = set (map fst ?ns')" by simp
    also have "\<dots> = set (filter (\<lambda>k. k \<noteq> r) (map fst ns))" by (simp only: keys')
    also have "\<dots> = ?D - {r}" by auto
    finally show ?thesis .
  qed
  have look: "\<exists>n'. map_of ?ns' k = Some n' \<and> id_node n' = id_node n \<and> color n' = color n \<and>
                (distinct (neighbors n) \<longrightarrow> distinct (neighbors n')) \<and>
                set (neighbors n') =
                  (if k = t then (set (neighbors n) - {r}) \<union> (set (neighbors M) - {t})
                   else if k \<in> set (neighbors M) then insert t (set (neighbors n) - {r})
                   else set (neighbors n))"
    if kn: "map_of ns k = Some n" and kr: "k \<noteq> r" for k n
  proof (cases "k = t")
    case True
    with kn have "map_of ?ns1 k = Some (?f n)" by simp
    from l2 [OF this] True kr show ?thesis by (auto simp: sameBut_def)
  next
    case False
    with kn have "map_of ?ns1 k = Some n" by simp
    from l2 [OF this] False kr show ?thesis by (auto simp: sameBut_def)
  qed
  have none: "map_of ?ns' k = None" if "map_of ns k = None" for k
  proof -
    from that have "k \<notin> set (map fst ns)" by (simp add: map_of_eq_None_iff)
    then have "k \<notin> set (map fst ?ns')" by (simp only: keys') simp
    then show ?thesis by (simp only: map_of_eq_None_iff) simp
  qed
  have wk': "wellKeyed ?ns'"
    unfolding wellKeyed_def
  proof (intro conjI allI impI)
    show "distinct (map fst ?ns')" using wk by (simp only: keys') (simp add: wellKeyed_def)
  next
    fix k n' assume a: "map_of ?ns' k = Some n'"
    then have kr: "k \<noteq> r" by (auto split: if_splits)
    from a none [of k] obtain n where n: "map_of ns k = Some n" by (cases "map_of ns k") auto
    from look [OF n kr] a wk n show "id_node n' = k" "distinct (neighbors n')"
      by (auto simp: wellKeyed_def)
  qed
  have C': "colorOf ?ns' k = colorOf ns k" if "k \<noteq> r" for k
  proof (cases "map_of ns k")
    case None
    with none [OF None] show ?thesis by (simp add: colorOf_def)
  next
    case (Some n)
    from look [OF Some that] Some show ?thesis by (auto simp: colorOf_def)
  qed
  have dom': "map_of ?ns' k = None \<longleftrightarrow> map_of ns k = None" if "k \<noteq> r" for k
  proof (cases "map_of ns k")
    case None
    with none [OF None] show ?thesis by simp
  next
    case (Some n)
    from look [OF Some that] Some show ?thesis by auto
  qed
  have N': "nbrsOf ?ns' k =
              (if k = t then (nbrsOf ns t - {r}) \<union> (nbrsOf ns r - {t})
               else if k \<in> nbrsOf ns r then insert t (nbrsOf ns k - {r})
               else nbrsOf ns k)" if "k \<in> ?D" "k \<noteq> r" for k
  proof -
    from that obtain n where n: "map_of ns k = Some n" by (auto simp: keys_iff)
    from look [OF n that(2)] n Nr Nt t(1) show ?thesis by (auto simp: nbrsOf_def)
  qed
  have rnoself: "r \<notin> nbrsOf ns r" using absInv_noself [OF ai rD] .
  have ai0: "absInv (?D - {r}) (nbrsOf ?ns') (colorOf ns) t R"
  proof (rule absInv_step [OF ai rD r(3) _ _ tD _ refl])
    show "colorOf ns r = c" using r by (simp add: colorOf_def)
    show "r \<in> nbrsOf ns t" using r Nt by simp
    show "colorOf ns t = c" using t by (simp add: colorOf_def)
    show "nbrsOf ?ns' t = nbrsOf ns t - {r} \<union> (nbrsOf ns r - {t})"
      using N' [OF tD] r(3) by simp
    show "\<forall>k\<in>nbrsOf ns r - {t}. nbrsOf ?ns' k = insert t (nbrsOf ns k - {r})"
    proof
      fix k assume k: "k \<in> nbrsOf ns r - {t}"
      then have "k \<in> ?D" "k \<noteq> r" using absInv_sym [OF ai rD, of k] rnoself by auto
      from N' [OF this] k show "nbrsOf ?ns' k = insert t (nbrsOf ns k - {r})" by simp
    qed
    show "\<forall>k\<in>?D - {r}. k \<noteq> t \<and> k \<notin> nbrsOf ns r \<longrightarrow> nbrsOf ?ns' k = nbrsOf ns k"
      using N' by auto
  qed
  have ai': "absInv (fst ` set ?ns') (nbrsOf ?ns') (colorOf ?ns') t R"
    unfolding D' using ai0 C' unfolding absInv_def
    by (metis (no_types, lifting) Diff_iff singletonI)
  from look [OF t(1)] r(3) obtain T' where
    T': "map_of ?ns' t = Some T'" "color T' = color T"
        "set (neighbors T') = (set (neighbors T) - {r}) \<union> (set (neighbors M) - {t})"
    by auto
  have "map_of ?ns' r = None" by simp
  with res wk' ai' T' t(2) C' dom' keys' show ?thesis
    unfolding quasiInv_def by (intro exI conjI) (assumption | simp | blast)+
qed

lemma foldE_mergeOne:
  assumes "quasiInv ns t (set rs)" "distinct rs" "map_of ns t = Some T" "color T = c"
    "set rs \<subseteq> set (neighbors T)" "t \<notin> set rs"
    "\<forall>r \<in> set rs. \<exists>M. map_of ns r = Some M \<and> color M = c"
  shows "\<exists>ns' T'. foldE (mergeOne t) rs ns = Inr ns' \<and> quasiInv ns' t {} \<and>
           map_of ns' t = Some T' \<and> color T' = c \<and>
           (\<forall>k. k \<notin> set rs \<longrightarrow> colorOf ns' k = colorOf ns k \<and>
                  (map_of ns' k = None \<longleftrightarrow> map_of ns k = None)) \<and>
           map fst ns' = filter (\<lambda>k. k \<notin> set rs) (map fst ns)"
  using assms
proof (induction rs arbitrary: ns T)
  case Nil
  then show ?case by simp
next
  case (Cons r rs)
  from Cons.prems obtain M where M: "map_of ns r = Some M" "color M = c" by auto
  have inv: "quasiInv ns t (insert r (set rs))" using Cons.prems(1) by simp
  have rt: "r \<noteq> t" "r \<in> set (neighbors T)" using Cons.prems by auto
  from mergeOne_step [OF inv Cons.prems(3,4) M rt]
  obtain ns1 T1 where
    s1: "mergeOne t r ns = Inr ns1" and q1: "quasiInv ns1 t (set rs)" and
    t1: "map_of ns1 t = Some T1" "color T1 = c" "set (neighbors T) - {r} \<subseteq> set (neighbors T1)" and
    r1: "map_of ns1 r = None" and
    c1: "\<And>k. k \<noteq> r \<Longrightarrow> colorOf ns1 k = colorOf ns k \<and> (map_of ns1 k = None \<longleftrightarrow> map_of ns k = None)" and
    k1: "map fst ns1 = filter (\<lambda>k. k \<noteq> r) (map fst ns)"
    by blast
  have d: "distinct rs" "r \<notin> set rs" using Cons.prems(2) by auto
  have sub: "set rs \<subseteq> set (neighbors T1)" using Cons.prems(5) t1(3) d(2) by auto
  have tn: "t \<notin> set rs" using Cons.prems(6) by simp
  have ex: "\<forall>r' \<in> set rs. \<exists>M. map_of ns1 r' = Some M \<and> color M = c"
  proof
    fix r' assume r': "r' \<in> set rs"
    with d have "r' \<noteq> r" by auto
    from c1 [OF this] have cc: "colorOf ns1 r' = colorOf ns r'" and
      dd: "map_of ns1 r' = None \<longleftrightarrow> map_of ns r' = None" by auto
    from Cons.prems(7) r' obtain M' where "map_of ns r' = Some M'" "color M' = c" by auto
    with cc dd show "\<exists>M. map_of ns1 r' = Some M \<and> color M = c"
      by (cases "map_of ns1 r'") (auto simp: colorOf_def)
  qed
  from Cons.IH [OF q1 d(1) t1(1,2) sub tn ex]
  obtain ns' T' where
    s2: "foldE (mergeOne t) rs ns1 = Inr ns'" and q2: "quasiInv ns' t {}" and
    t2: "map_of ns' t = Some T'" "color T' = c" and
    c2: "\<And>k. k \<notin> set rs \<Longrightarrow> colorOf ns' k = colorOf ns1 k \<and> (map_of ns' k = None \<longleftrightarrow> map_of ns1 k = None)" and
    k2: "map fst ns' = filter (\<lambda>k. k \<notin> set rs) (map fst ns1)"
    by blast
  have "foldE (mergeOne t) (r # rs) ns = Inr ns'" using s1 s2 by simp
  moreover have "\<forall>k. k \<notin> set (r # rs) \<longrightarrow> colorOf ns' k = colorOf ns k \<and>
                  (map_of ns' k = None \<longleftrightarrow> map_of ns k = None)"
    using c1 c2 by simp
  moreover have "map fst ns' = filter (\<lambda>k. k \<notin> set (r # rs)) (map fst ns)"
    using k1 k2 by (simp add: conj_commute)
  ultimately show ?case using q2 t2 by blast
qed

lemma map_modify_id:
  "distinct (map fst ns) \<Longrightarrow> (\<And>n. map_of ns k = Some n \<Longrightarrow> f n = n) \<Longrightarrow> map_modify k f ns = ns"
proof (induction ns)
  case Nil
  then show ?case by (simp add: map_modify_def)
next
  case (Cons a ns)
  obtain k' n' where a: "a = (k', n')" by (cases a)
  show ?case
  proof (cases "k' = k")
    case True
    with Cons.prems a have "f n' = n'" by simp
    moreover have "map_modify k f ns = ns"
    proof -
      from Cons.prems(1) a True have "k \<notin> fst ` set ns" by simp
      then show ?thesis by (force simp: map_modify_def intro!: map_idI)
    qed
    ultimately show ?thesis using a True by (simp add: map_modify_def)
  next
    case False
    with Cons.prems a have "map_modify k f ns = ns"
      by (intro Cons.IH) auto
    with a False show ?thesis by (simp add: map_modify_def)
  qed
qed

definition graphInv :: "graph \<Rightarrow> bool" where
  "graphInv ns \<longleftrightarrow> quasiInv ns 0 {}"

lemma quasiInv_empty: "quasiInv ns t {} \<longleftrightarrow> graphInv ns"
  by (simp add: graphInv_def quasiInv_def absInv_def)

lemma applyMove_inv:
  assumes gi: "graphInv ns" and t: "map_of ns t = Some T"
  shows "\<exists>ns' rs. applyMove ns t c = Inr ns' \<and> graphInv ns' \<and>
           colorOf ns' t = c \<and> map_of ns' t \<noteq> None \<and> t \<notin> set rs \<and>
           (\<forall>r \<in> set rs. colorOf ns r = c) \<and>
           (\<forall>k. k \<notin> set rs \<and> k \<noteq> t \<longrightarrow> colorOf ns' k = colorOf ns k) \<and>
           (\<forall>k. k \<notin> set rs \<longrightarrow> (map_of ns' k = None \<longleftrightarrow> map_of ns k = None)) \<and>
           map fst ns' = filter (\<lambda>k. k \<notin> set rs) (map fst ns)"
proof -
  let ?D = "fst ` set ns"
  let ?ns0 = "map_modify t (\<lambda>n. n\<lparr>color := c\<rparr>) ns"
  let ?rs = "neighborsToMerge ?ns0 (neighbors T) c"
  from gi have wk: "wellKeyed ns" and ai: "absInv ?D (nbrsOf ns) (colorOf ns) t {}"
    by (auto simp: graphInv_def quasiInv_def absInv_def)
  have tD: "t \<in> ?D" using t by (simp add: keys_iff)
  have N0: "nbrsOf ?ns0 = nbrsOf ns"
    by (auto simp: nbrsOf_def fun_eq_iff split: option.splits)
  have C0: "colorOf ?ns0 k = (if k = t then c else colorOf ns k)" for k
    using t by (auto simp: colorOf_def split: option.splits)
  have rs_iff: "r \<in> set ?rs \<longleftrightarrow> r \<in> nbrsOf ns t \<and> colorOf ?ns0 r = c \<and> map_of ns r \<noteq> None" for r
    using t by (auto simp: neighborsToMerge_def nbrsOf_def colorOf_def split: option.splits)
  have tnot: "t \<notin> set ?rs" using absInv_noself [OF ai tD] by (simp add: rs_iff)
  have wk0: "wellKeyed ?ns0" using wk by (auto simp: wellKeyed_def)
  have ai0: "absInv (fst ` set ?ns0) (nbrsOf ?ns0) (colorOf ?ns0) t (set ?rs)"
    unfolding absInv_def N0
  proof (intro ballI conjI impI)
    fix k assume "k \<in> fst ` set ?ns0"
    then have kD: "k \<in> ?D" by simp
    show "k \<notin> nbrsOf ns k" using absInv_noself [OF ai kD] .
    fix j assume j: "j \<in> nbrsOf ns k"
    from absInv_sym [OF ai kD j] have jD: "j \<in> ?D" "k \<in> nbrsOf ns j" by auto
    show "j \<in> fst ` set ?ns0" using jD by simp
    show "k \<in> nbrsOf ns j" by fact
    assume cc: "colorOf ?ns0 j = colorOf ?ns0 k"
    have jk: "j \<noteq> k" using j absInv_noself [OF ai kD] by auto
    have ne: "colorOf ns j \<noteq> colorOf ns k" using absInv_col [OF ai kD j] by auto
    show "(k = t \<and> j \<in> set ?rs) \<or> (j = t \<and> k \<in> set ?rs)"
    proof (cases "k = t")
      case True
      have "j \<in> nbrsOf ns t" using j True by simp
      moreover have "colorOf ?ns0 j = c" using cc True by (simp add: C0)
      moreover have "map_of ns j \<noteq> None" using jD by (simp add: keys_iff)
      ultimately have "j \<in> set ?rs" by (simp only: rs_iff) simp
      with True show ?thesis by simp
    next
      case False
      with cc ne have jt: "j = t" by (auto simp: C0 split: if_splits)
      have "k \<in> nbrsOf ns t" using jD jt by simp
      moreover have "colorOf ?ns0 k = c" using cc jt by (simp add: C0)
      moreover have "map_of ns k \<noteq> None" using kD by (simp add: keys_iff)
      ultimately have "k \<in> set ?rs" by (simp only: rs_iff) simp
      with jt show ?thesis by simp
    qed
  qed
  have q0: "quasiInv ?ns0 t (set ?rs)" using wk0 ai0 by (simp add: quasiInv_def)
  have t0: "map_of ?ns0 t = Some (T\<lparr>color := c\<rparr>)" using t by simp
  have drs: "distinct ?rs" using wk t by (auto simp: neighborsToMerge_def wellKeyed_def)
  have sub: "set ?rs \<subseteq> set (neighbors (T\<lparr>color := c\<rparr>))"
    by (auto simp: neighborsToMerge_def)
  have ex: "\<forall>r \<in> set ?rs. \<exists>M. map_of ?ns0 r = Some M \<and> color M = c"
    by (auto simp: neighborsToMerge_def split: option.splits)
  have c0: "color (T\<lparr>color := c\<rparr>) = c" by simp
  from foldE_mergeOne [OF q0 drs t0 c0 sub tnot ex]
  obtain ns1 T1 where
    s1: "foldE (mergeOne t) ?rs ?ns0 = Inr ns1" and q1: "quasiInv ns1 t {}" and
    t1: "map_of ns1 t = Some T1" "color T1 = c" and
    c1: "\<And>k. k \<notin> set ?rs \<Longrightarrow> colorOf ns1 k = colorOf ?ns0 k \<and> (map_of ns1 k = None \<longleftrightarrow> map_of ?ns0 k = None)" and
    k1: "map fst ns1 = filter (\<lambda>k. k \<notin> set ?rs) (map fst ?ns0)"
    by auto
  let ?g = "\<lambda>n. n\<lparr>neighbors := set_delete t (neighbors n)\<rparr>"
  have fin: "map_modify t ?g ns1 = ns1"
  proof (rule map_modify_id)
    show "distinct (map fst ns1)" using q1 by (simp add: quasiInv_def wellKeyed_def)
    fix n assume n: "map_of ns1 t = Some n"
    from q1 have "absInv (fst ` set ns1) (nbrsOf ns1) (colorOf ns1) t {}" by (simp add: quasiInv_def)
    from absInv_noself [OF this, of t] n have "t \<notin> set (neighbors n)"
      by (auto simp: keys_iff nbrsOf_def)
    then show "?g n = n" by (simp add: set_delete_def)
  qed
  have res: "applyMove ns t c = Inr ns1"
    using t s1 fin by (simp add: applyMove_def Let_def)
  have rcol: "\<forall>r \<in> set ?rs. colorOf ns r = c"
    using tnot by (auto simp: rs_iff C0 split: if_splits)
  show ?thesis
  proof (intro exI [of _ ns1] exI [of _ ?rs] conjI)
    show "applyMove ns t c = Inr ns1" by fact
    show "graphInv ns1" using q1 by (simp add: quasiInv_empty)
    show "colorOf ns1 t = c" using t1 by (simp add: colorOf_def)
    show "map_of ns1 t \<noteq> None" using t1 by simp
    show "t \<notin> set ?rs" by fact
    show "\<forall>r \<in> set ?rs. colorOf ns r = c" by fact
    show "\<forall>k. k \<notin> set ?rs \<and> k \<noteq> t \<longrightarrow> colorOf ns1 k = colorOf ns k"
      using c1 by (simp add: C0)
    show "\<forall>k. k \<notin> set ?rs \<longrightarrow> (map_of ns1 k = None \<longleftrightarrow> map_of ns k = None)"
      using c1 by simp
    show "map fst ns1 = filter (\<lambda>k. k \<notin> set ?rs) (map fst ns)"
      using k1 by simp
  qed
qed

section \<open>The heuristic is admissible\<close>

declare dfs.simps [simp del]

lemma fold_set_add:
  "set (fold (\<lambda>x acc. set_add (f x) acc) xs acc) = f ` set xs \<union> set acc \<and>
   (distinct acc \<longrightarrow> distinct (fold (\<lambda>x acc. set_add (f x) acc) xs acc))"
  by (induction xs arbitrary: acc) auto

lemma set_colorSet: "set (colorSet ns) = (\<lambda>kv. color (snd kv)) ` set ns"
  using fold_set_add [of "\<lambda>kv. color (snd kv)" ns "[]"] by (simp add: colorSet_def)

lemma distinct_colorSet: "distinct (colorSet ns)"
  using fold_set_add [of "\<lambda>kv. color (snd kv)" ns "[]"] by (simp add: colorSet_def)

lemma length_colorSet: "length (colorSet ns) = card ((\<lambda>kv. color (snd kv)) ` set ns)"
  using distinct_card [OF distinct_colorSet, of ns] by (simp add: set_colorSet)

lemma in_set_iff_map_of:
  "wellKeyed ns \<Longrightarrow> (k, n) \<in> set ns \<longleftrightarrow> map_of ns k = Some n"
  by (auto simp: wellKeyed_def)

lemma colors_as_colorOf:
  assumes "wellKeyed ns"
  shows "(\<lambda>kv. color (snd kv)) ` set ns = colorOf ns ` (fst ` set ns)"
proof (intro set_eqI iffI)
  fix x assume "x \<in> (\<lambda>kv. color (snd kv)) ` set ns"
  then obtain k n where kn: "(k, n) \<in> set ns" "x = color n" by auto
  then have "map_of ns k = Some n" using assms by (simp add: in_set_iff_map_of)
  then have "colorOf ns k = x" using kn by (simp add: colorOf_def)
  moreover have "k \<in> fst ` set ns" using kn by force
  ultimately show "x \<in> colorOf ns ` (fst ` set ns)" by blast
next
  fix x assume "x \<in> colorOf ns ` (fst ` set ns)"
  then obtain k where k: "k \<in> fst ` set ns" "x = colorOf ns k" by auto
  then obtain n where n: "map_of ns k = Some n" by (auto simp: keys_iff)
  then have "(k, n) \<in> set ns" by (rule map_of_SomeD)
  moreover have "x = color n" using k n by (simp add: colorOf_def)
  ultimately show "x \<in> (\<lambda>kv. color (snd kv)) ` set ns" by force
qed

lemma graphInv_wellKeyed: "graphInv ns \<Longrightarrow> wellKeyed ns"
  by (simp add: graphInv_def quasiInv_def)

lemma applyMove_heuristic:
  assumes gi: "graphInv ns" and t: "map_of ns t = Some T" and am: "applyMove ns t c = Inr ns'"
  shows "graphInv ns' \<and> heuristic ns \<le> heuristic ns' + 1"
proof -
  from applyMove_inv [OF gi t, of c] obtain ns1 rs where
    am1: "applyMove ns t c = Inr ns1" and gi1: "graphInv ns1" and
    ct1: "colorOf ns1 t = c" "map_of ns1 t \<noteq> None" "t \<notin> set rs" and
    rc: "\<forall>r \<in> set rs. colorOf ns r = c" and
    co1: "\<forall>k. k \<notin> set rs \<and> k \<noteq> t \<longrightarrow> colorOf ns1 k = colorOf ns k" and
    dm1: "\<forall>k. k \<notin> set rs \<longrightarrow> (map_of ns1 k = None \<longleftrightarrow> map_of ns k = None)"
    by blast
  from am am1 have eq: "ns1 = ns'" by simp
  note gi' = gi1 [unfolded eq] and ct = ct1 [unfolded eq] and co = co1 [unfolded eq]
    and dm = dm1 [unfolded eq]
  let ?K = "fst ` set ns" and ?K' = "fst ` set ns'"
  have sub: "colorOf ns ` ?K \<subseteq> insert (colorOf ns t) (colorOf ns' ` ?K')"
  proof
    fix x assume "x \<in> colorOf ns ` ?K"
    then obtain k where k: "k \<in> ?K" "x = colorOf ns k" by auto
    show "x \<in> insert (colorOf ns t) (colorOf ns' ` ?K')"
    proof (cases "k = t")
      case True
      with k show ?thesis by simp
    next
      case False
      show ?thesis
      proof (cases "k \<in> set rs")
        case True
        with rc k have "x = colorOf ns' t" using ct by simp
        moreover have "t \<in> ?K'" using ct by (simp add: keys_iff)
        ultimately show ?thesis by blast
      next
        case nr: False
        with co False k have "x = colorOf ns' k" by simp
        moreover have "k \<in> ?K'" using dm nr k by (simp add: keys_iff)
        ultimately show ?thesis by blast
      qed
    qed
  qed
  have "card (colorOf ns ` ?K) \<le> card (insert (colorOf ns t) (colorOf ns' ` ?K'))"
    by (rule card_mono [OF _ sub]) simp
  also have "\<dots> \<le> card (colorOf ns' ` ?K') + 1"
    by (simp add: card_insert_if)
  finally have "card (colorOf ns ` ?K) \<le> card (colorOf ns' ` ?K') + 1" .
  then have "length (colorSet ns) \<le> length (colorSet ns') + 1"
    by (simp only: length_colorSet colors_as_colorOf [OF graphInv_wellKeyed [OF gi]]
      colors_as_colorOf [OF graphInv_wellKeyed [OF gi']])
  then have "heuristic ns \<le> heuristic ns' + 1"
    unfolding heuristic_def by linarith
  with gi' show ?thesis by simp
qed

lemma heuristic_goal: "length ns = 1 \<Longrightarrow> heuristic ns = 0"
proof -
  assume "length ns = 1"
  then obtain a where "ns = [a]" by (cases ns) auto
  then show ?thesis by (simp add: heuristic_def length_colorSet)
qed

lemma isMove_key: "isMove ns p \<Longrightarrow> \<exists>T. map_of ns (step_regionId p) = Some T"
  by (auto simp: isMove_def split: option.splits)

lemma heuristic_admissible:
  "graphInv ns \<Longrightarrow> reachesGoal ns ps \<Longrightarrow> heuristic ns \<le> int (length ps)"
proof (induction ps arbitrary: ns)
  case Nil
  then show ?case by (simp add: reachesGoal_def heuristic_goal)
next
  case (Cons p ps)
  from Cons.prems(2) have mv: "isMove ns p"
    by (auto simp: reachesGoal_def split: if_splits)
  then obtain T where T: "map_of ns (step_regionId p) = Some T" using isMove_key by blast
  from Cons.prems(2) mv obtain ns' where
    am: "applyMove ns (step_regionId p) (step_color p) = Inr ns'" and rg: "reachesGoal ns' ps"
    by (auto simp: reachesGoal_def split: sum.splits)
  from applyMove_heuristic [OF Cons.prems(1) T am]
  have "graphInv ns'" "heuristic ns \<le> heuristic ns' + 1" by auto
  with Cons.IH [OF this(1) rg] show ?case by simp
qed

section \<open>The depth-first search\<close>

lemma set_neighborColors_gen:
  "set (fold (\<lambda>nId acc. case map_of ns nId of None \<Rightarrow> acc
                          | Some neighbor \<Rightarrow> set_add (color neighbor) acc) js acc) =
     set acc \<union> {c. \<exists>j \<in> set js. \<exists>n'. map_of ns j = Some n' \<and> color n' = c}"
proof (induction js arbitrary: acc)
  case Nil
  then show ?case by simp
next
  case (Cons j js)
  show ?case
    by (cases "map_of ns j") (auto simp: Cons.IH)
qed

lemma set_neighborColors:
  "set (neighborColors ns n) =
     {c. \<exists>j \<in> set (neighbors n). \<exists>n'. map_of ns j = Some n' \<and> color n' = c}"
  unfolding neighborColors_def using set_neighborColors_gen [of ns "neighbors n" "[]"] by simp

lemma mem_concat_map: "x \<in> set (concat (map f xs)) \<longleftrightarrow> (\<exists>y \<in> set xs. x \<in> set (f y))"
  by (induction xs) auto

lemma getPossibleMoves_iff:
  "mv \<in> set (getPossibleMoves ns) \<longleftrightarrow>
     (\<exists>k n c. (k, n) \<in> set ns \<and> c \<in> set (neighborColors ns n) \<and>
        mv = \<lparr>regionId = id_node n, targetColor = c, score = 0\<rparr>)"
proof -
  have "mv \<in> set (getPossibleMoves ns) \<longleftrightarrow>
     (\<exists>kv \<in> set ns. \<exists>c \<in> set (neighborColors ns (snd kv)).
        mv = \<lparr>regionId = id_node (snd kv), targetColor = c, score = 0\<rparr>)"
    unfolding getPossibleMoves_def mem_concat_map set_map image_iff ..
  also have "\<dots> \<longleftrightarrow> (\<exists>k n c. (k, n) \<in> set ns \<and> c \<in> set (neighborColors ns n) \<and>
        mv = \<lparr>regionId = id_node n, targetColor = c, score = 0\<rparr>)"
    by (simp only: Bex_def split_paired_Ex snd_conv) blast
  finally show ?thesis .
qed

lemma isMove_iff:
  "isMove ns p \<longleftrightarrow>
     (\<exists>n. map_of ns (step_regionId p) = Some n \<and> step_color p \<in> set (neighborColors ns n))"
  by (auto simp: isMove_def set_neighborColors list_ex_iff split: option.splits)

lemma move_isMove:
  assumes "wellKeyed ns" "mv \<in> set (getPossibleMoves ns)"
  shows "isMove ns \<lparr>step_regionId = regionId mv, step_color = targetColor mv\<rparr>"
proof -
  from assms(2) obtain k n c where kn: "(k, n) \<in> set ns" "c \<in> set (neighborColors ns n)"
    "mv = \<lparr>regionId = id_node n, targetColor = c, score = 0\<rparr>"
    by (auto simp: getPossibleMoves_iff)
  from kn(1) assms(1) have m: "map_of ns k = Some n" by (simp add: in_set_iff_map_of)
  with assms(1) have "id_node n = k" by (simp add: wellKeyed_def)
  with m kn show ?thesis by (simp add: isMove_iff)
qed

lemma isMove_move:
  assumes "wellKeyed ns" "isMove ns p"
  shows "\<lparr>regionId = step_regionId p, targetColor = step_color p, score = 0\<rparr>
           \<in> set (getPossibleMoves ns)"
proof -
  from assms(2) obtain n where n: "map_of ns (step_regionId p) = Some n"
    "step_color p \<in> set (neighborColors ns n)" by (auto simp: isMove_iff)
  from n(1) assms(1) have "id_node n = step_regionId p" by (simp add: wellKeyed_def)
  moreover from n(1) have "(step_regionId p, n) \<in> set ns" by (rule map_of_SomeD)
  ultimately show ?thesis using n(2)
    unfolding getPossibleMoves_iff
    by (intro exI [of _ "step_regionId p"] exI [of _ n] exI [of _ "step_color p"]) simp
qed

lemma isMove_heuristic:
  assumes gi: "graphInv ns" and mv: "isMove ns p"
  shows "1 \<le> heuristic ns"
proof -
  let ?D = "fst ` set ns"
  from gi have wk: "wellKeyed ns" and ai: "absInv ?D (nbrsOf ns) (colorOf ns) 0 {}"
    by (auto simp: graphInv_def quasiInv_def)
  from mv obtain n j n' where n: "map_of ns (step_regionId p) = Some n"
    "j \<in> set (neighbors n)" "map_of ns j = Some n'"
    by (auto simp: isMove_iff set_neighborColors)
  let ?k = "step_regionId p"
  have kD: "?k \<in> ?D" using n by (simp add: keys_iff)
  have jN: "j \<in> nbrsOf ns ?k" using n by (simp add: nbrsOf_def)
  from absInv_sym [OF ai kD jN] have jD: "j \<in> ?D" by simp
  from absInv_col [OF ai kD jN] have ne: "colorOf ns j \<noteq> colorOf ns ?k" by auto
  let ?C = "colorOf ns ` ?D"
  have "card {colorOf ns j, colorOf ns ?k} \<le> card ?C"
    by (rule card_mono) (use kD jD in auto)
  with ne have "2 \<le> card ?C" by simp
  then have "2 \<le> length (colorSet ns)"
    by (simp only: length_colorSet colors_as_colorOf [OF wk])
  then show ?thesis unfolding heuristic_def by linarith
qed

lemma firstResult_Inr:
  "(\<forall>x \<in> set xs. \<exists>v. f x = Inr v) \<Longrightarrow> \<exists>v. firstResult f xs = Inr v"
  by (induction xs) (auto split: sum.splits option.splits)

lemma firstResult_SomeD:
  "firstResult f xs = Inr (Some r) \<Longrightarrow> \<exists>x \<in> set xs. f x = Inr (Some r)"
  by (induction xs) (auto split: sum.splits option.splits)

lemma firstResult_SomeI:
  "(\<forall>x \<in> set xs. \<exists>v. f x = Inr v) \<Longrightarrow> x \<in> set xs \<Longrightarrow> f x = Inr (Some r) \<Longrightarrow>
     \<exists>r'. firstResult f xs = Inr (Some r')"
  by (induction xs) (auto split: sum.splits option.splits)

lemma move_key:
  assumes "wellKeyed ns" "mv \<in> set (getPossibleMoves ns)"
  shows "\<exists>T. map_of ns (regionId mv) = Some T"
  using move_isMove [OF assms] isMove_key by fastforce

lemma dfs_no_error:
  "graphInv ns \<Longrightarrow> \<exists>v. dfs ns d L p = Inr v"
proof (induction ns d L p rule: dfs.induct)
  case (1 currentNodes depth limit pth)
  show ?case
  proof (cases "length currentNodes = 1 \<or> limit < depth + heuristic currentNodes")
    case True
    then show ?thesis by (auto simp: dfs.simps [of currentNodes depth limit pth])
  next
    case False
    let ?f = "\<lambda>move. case applyMove currentNodes (regionId move) (targetColor move) of
                        Inl e \<Rightarrow> Inl e
                      | Inr nextNodes \<Rightarrow>
                          dfs nextNodes (depth + 1) limit
                            (pth @ [\<lparr>step_regionId = regionId move,
                                     step_color = targetColor move\<rparr>])"
    have "\<forall>mv \<in> set (getPossibleMoves currentNodes). \<exists>v. ?f mv = Inr v"
    proof
      fix mv assume mv: "mv \<in> set (getPossibleMoves currentNodes)"
      from move_key [OF graphInv_wellKeyed [OF "1.prems"] mv]
      obtain T where T: "map_of currentNodes (regionId mv) = Some T" by blast
      from applyMove_inv [OF "1.prems" T, of "targetColor mv"]
      obtain ns' where am: "applyMove currentNodes (regionId mv) (targetColor mv) = Inr ns'"
        and gi': "graphInv ns'" by blast
      from "1.IH" [OF _ _ mv am gi'] False am show "\<exists>v. ?f mv = Inr v" by simp
    qed
    from firstResult_Inr [OF this] False show ?thesis
      by (simp add: dfs.simps [of currentNodes depth limit pth])
  qed
qed

lemma dfs_sound:
  "graphInv ns \<Longrightarrow> dfs ns d L p = Inr (Some res) \<Longrightarrow>
     \<exists>ms. path res = p @ ms \<and> steps res = d + int (length ms) \<and> reachesGoal ns ms"
proof (induction ns d L p rule: dfs.induct)
  case (1 currentNodes depth limit pth)
  show ?case
  proof (cases "length currentNodes = 1")
    case True
    with "1.prems"(2) have "res = \<lparr>steps = depth, path = pth\<rparr>"
      by (simp add: dfs.simps [of currentNodes depth limit pth])
    with True show ?thesis by (simp add: reachesGoal_def)
  next
    case False
    with "1.prems"(2) have np: "\<not> limit < depth + heuristic currentNodes"
      by (auto simp: dfs.simps [of currentNodes depth limit pth] split: if_splits)
    let ?f = "\<lambda>move. case applyMove currentNodes (regionId move) (targetColor move) of
                        Inl e \<Rightarrow> Inl e
                      | Inr nextNodes \<Rightarrow>
                          dfs nextNodes (depth + 1) limit
                            (pth @ [\<lparr>step_regionId = regionId move,
                                     step_color = targetColor move\<rparr>])"
    from "1.prems"(2) False np have "firstResult ?f (getPossibleMoves currentNodes) = Inr (Some res)"
      by (simp add: dfs.simps [of currentNodes depth limit pth])
    from firstResult_SomeD [OF this] obtain mv where
      mv: "mv \<in> set (getPossibleMoves currentNodes)" and fm: "?f mv = Inr (Some res)" by blast
    let ?st = "\<lparr>step_regionId = regionId mv, step_color = targetColor mv\<rparr>"
    from fm obtain ns' where am: "applyMove currentNodes (regionId mv) (targetColor mv) = Inr ns'"
      and d': "dfs ns' (depth + 1) limit (pth @ [?st]) = Inr (Some res)"
      by (auto split: sum.splits)
    from move_key [OF graphInv_wellKeyed [OF "1.prems"(1)] mv]
    obtain T where T: "map_of currentNodes (regionId mv) = Some T" by blast
    from applyMove_heuristic [OF "1.prems"(1) T am] have gi': "graphInv ns'" by simp
    from "1.IH" [OF False np mv am gi' d'] obtain ms where
      ms: "path res = (pth @ [?st]) @ ms" "steps res = depth + 1 + int (length ms)"
      "reachesGoal ns' ms" by blast
    have im: "isMove currentNodes ?st"
      by (rule move_isMove [OF graphInv_wellKeyed [OF "1.prems"(1)] mv])
    have "reachesGoal currentNodes (?st # ms)"
      using im am ms(3) by (simp add: reachesGoal_def)
    with ms show ?thesis by (intro exI [of _ "?st # ms"]) simp
  qed
qed

lemma dfs_bound:
  "graphInv ns \<Longrightarrow> d \<le> L \<Longrightarrow> dfs ns d L p = Inr (Some res) \<Longrightarrow> steps res \<le> L"
proof (induction ns d L p rule: dfs.induct)
  case (1 currentNodes depth limit pth)
  show ?case
  proof (cases "length currentNodes = 1")
    case True
    with "1.prems"(3) have "res = \<lparr>steps = depth, path = pth\<rparr>"
      by (simp add: dfs.simps [of currentNodes depth limit pth])
    with "1.prems"(2) show ?thesis by simp
  next
    case False
    with "1.prems"(3) have np: "\<not> limit < depth + heuristic currentNodes"
      by (auto simp: dfs.simps [of currentNodes depth limit pth] split: if_splits)
    let ?f = "\<lambda>move. case applyMove currentNodes (regionId move) (targetColor move) of
                        Inl e \<Rightarrow> Inl e
                      | Inr nextNodes \<Rightarrow>
                          dfs nextNodes (depth + 1) limit
                            (pth @ [\<lparr>step_regionId = regionId move,
                                     step_color = targetColor move\<rparr>])"
    from "1.prems"(3) False np have "firstResult ?f (getPossibleMoves currentNodes) = Inr (Some res)"
      by (simp add: dfs.simps [of currentNodes depth limit pth])
    from firstResult_SomeD [OF this] obtain mv where
      mv: "mv \<in> set (getPossibleMoves currentNodes)" and fm: "?f mv = Inr (Some res)" by blast
    let ?st = "\<lparr>step_regionId = regionId mv, step_color = targetColor mv\<rparr>"
    from fm obtain ns' where am: "applyMove currentNodes (regionId mv) (targetColor mv) = Inr ns'"
      and d': "dfs ns' (depth + 1) limit (pth @ [?st]) = Inr (Some res)"
      by (auto split: sum.splits)
    from move_key [OF graphInv_wellKeyed [OF "1.prems"(1)] mv]
    obtain T where T: "map_of currentNodes (regionId mv) = Some T" by blast
    from applyMove_heuristic [OF "1.prems"(1) T am] have gi': "graphInv ns'" by simp
    have im: "isMove currentNodes ?st"
      by (rule move_isMove [OF graphInv_wellKeyed [OF "1.prems"(1)] mv])
    from isMove_heuristic [OF "1.prems"(1) im] np have "depth + 1 \<le> limit" by simp
    from "1.IH" [OF False np mv am gi' this d'] show ?thesis .
  qed
qed

lemma dfs_complete:
  "graphInv ns \<Longrightarrow> reachesGoal ns ms \<Longrightarrow> d + int (length ms) \<le> L \<Longrightarrow>
     \<exists>res. dfs ns d L p = Inr (Some res)"
proof (induction ms arbitrary: ns d p)
  case Nil
  then show ?case by (simp add: reachesGoal_def dfs.simps [of ns d L p])
next
  case (Cons m ms)
  show ?case
  proof (cases "length ns = 1")
    case True
    then show ?thesis by (simp add: dfs.simps [of ns d L p])
  next
    case False
    from heuristic_admissible [OF Cons.prems(1,2)] Cons.prems(3)
    have np: "\<not> L < d + heuristic ns" by simp
    let ?f = "\<lambda>move. case applyMove ns (regionId move) (targetColor move) of
                        Inl e \<Rightarrow> Inl e
                      | Inr nextNodes \<Rightarrow>
                          dfs nextNodes (d + 1) L
                            (p @ [\<lparr>step_regionId = regionId move,
                                     step_color = targetColor move\<rparr>])"
    have wk: "wellKeyed ns" by (rule graphInv_wellKeyed [OF Cons.prems(1)])
    have all: "\<forall>mv \<in> set (getPossibleMoves ns). \<exists>v. ?f mv = Inr v"
    proof
      fix mv assume mv: "mv \<in> set (getPossibleMoves ns)"
      from move_key [OF wk mv] obtain T where T: "map_of ns (regionId mv) = Some T" by blast
      from applyMove_inv [OF Cons.prems(1) T, of "targetColor mv"]
      obtain ns' where am: "applyMove ns (regionId mv) (targetColor mv) = Inr ns'"
        and gi': "graphInv ns'" by blast
      from dfs_no_error [OF gi'] am show "\<exists>v. ?f mv = Inr v" by simp
    qed
    from Cons.prems(2) have im: "isMove ns m"
      by (auto simp: reachesGoal_def split: if_splits)
    from Cons.prems(2) im obtain ns' where
      am: "applyMove ns (step_regionId m) (step_color m) = Inr ns'" and rg: "reachesGoal ns' ms"
      by (auto simp: reachesGoal_def split: sum.splits)
    from isMove_key [OF im] obtain T where T: "map_of ns (step_regionId m) = Some T" by blast
    from applyMove_heuristic [OF Cons.prems(1) T am] have gi': "graphInv ns'" by simp
    let ?mv = "\<lparr>regionId = step_regionId m, targetColor = step_color m, score = 0\<rparr>"
    have mvin: "?mv \<in> set (getPossibleMoves ns)" by (rule isMove_move [OF wk im])
    from Cons.prems(3) have "d + 1 + int (length ms) \<le> L" by simp
    from Cons.IH [OF gi' rg this] obtain res where
      "dfs ns' (d + 1) L (p @ [\<lparr>step_regionId = step_regionId m, step_color = step_color m\<rparr>])
         = Inr (Some res)" by blast
    with am have "?f ?mv = Inr (Some res)" by simp
    from firstResult_SomeI [OF all mvin this] False np show ?thesis
      by (simp add: dfs.simps [of ns d L p])
  qed
qed

lemma mapWellFormed_iff: "mapWellFormed ns \<longleftrightarrow> wellKeyed ns"
proof
  assume a: "mapWellFormed ns"
  show "wellKeyed ns"
    unfolding wellKeyed_def
  proof (intro conjI allI impI)
    show "distinct (map fst ns)" using a by (simp add: mapWellFormed_def)
    fix k n assume "map_of ns k = Some n"
    then have "(k, n) \<in> set ns" by (rule map_of_SomeD)
    with a show "id_node n = k" "distinct (neighbors n)" by (auto simp: mapWellFormed_def)
  qed
next
  assume a: "wellKeyed ns"
  then have d: "distinct (map fst ns)" by (simp add: wellKeyed_def)
  show "mapWellFormed ns"
    unfolding mapWellFormed_def
  proof (intro conjI ballI)
    show "distinct (map fst ns)" by fact
    fix kn assume "kn \<in> set ns"
    then have "map_of ns (fst kn) = Some (snd kn)" using d by simp
    with a have "id_node (snd kn) = fst kn \<and> distinct (neighbors (snd kn))"
      unfolding wellKeyed_def by blast
    then show "case kn of (k, n) \<Rightarrow> id_node n = k \<and> distinct (neighbors n)"
      by (simp add: case_prod_beta)
  qed
qed

lemma regionGraph_iff: "regionGraph ns \<longleftrightarrow> graphInv ns"
proof
  assume rg: "regionGraph ns"
  then have wk: "wellKeyed ns" by (simp add: regionGraph_def mapWellFormed_iff)
  have "absInv (fst ` set ns) (nbrsOf ns) (colorOf ns) 0 {}"
    unfolding absInv_def
  proof (intro ballI conjI impI)
    fix k assume "k \<in> fst ` set ns"
    then obtain n where n: "map_of ns k = Some n" by (auto simp: keys_iff)
    then have kn: "(k, n) \<in> set ns" by (rule map_of_SomeD)
    show "k \<notin> nbrsOf ns k"
      using rg kn n by (auto simp: regionGraph_def noSelfNeighbor_def nbrsOf_def)
    fix j assume "j \<in> nbrsOf ns k"
    then have j: "j \<in> set (neighbors n)" using n by (simp add: nbrsOf_def)
    from rg kn j have "j \<in> fst ` set ns"
      unfolding regionGraph_def neighborsAreKeys_def by blast
    then show "j \<in> fst ` set ns" .
    then obtain n' where n': "map_of ns j = Some n'" by (auto simp: keys_iff)
    from rg kn j n' have "k \<in> set (neighbors n')"
      unfolding regionGraph_def symmetricNeighbors_def by fastforce
    then show "k \<in> nbrsOf ns j" using n' by (simp add: nbrsOf_def)
    from rg kn j n' have "color n' \<noteq> color n"
      unfolding regionGraph_def neighborColorsDiffer_def by fastforce
    moreover assume "colorOf ns j = colorOf ns k"
    ultimately show "(k = 0 \<and> j \<in> {}) \<or> (j = 0 \<and> k \<in> {})"
      using n n' by (simp add: colorOf_def)
  qed
  with wk show "graphInv ns" by (simp add: graphInv_def quasiInv_def)
next
  assume gi: "graphInv ns"
  then have wk: "wellKeyed ns" and ai: "absInv (fst ` set ns) (nbrsOf ns) (colorOf ns) 0 {}"
    by (auto simp: graphInv_def quasiInv_def)
  have facts: "k \<notin> set (neighbors n) \<and> j \<in> fst ` set ns \<and>
      (\<exists>n'. map_of ns j = Some n' \<and> k \<in> set (neighbors n') \<and> color n' \<noteq> color n)"
    if kn: "(k, n) \<in> set ns" and j: "j \<in> set (neighbors n)" for k n j
  proof -
    from kn wk have n: "map_of ns k = Some n" by (simp add: in_set_iff_map_of)
    have kD: "k \<in> fst ` set ns" using kn by force
    have jN: "j \<in> nbrsOf ns k" using n j by (simp add: nbrsOf_def)
    from absInv_noself [OF ai kD] n have "k \<notin> set (neighbors n)" by (simp add: nbrsOf_def)
    moreover from absInv_sym [OF ai kD jN] have jD: "j \<in> fst ` set ns" "k \<in> nbrsOf ns j" by auto
    moreover from jD obtain n' where n': "map_of ns j = Some n'" by (auto simp: keys_iff)
    moreover from absInv_col [OF ai kD jN] have "colorOf ns j \<noteq> colorOf ns k" by auto
    ultimately show ?thesis using n by (auto simp: nbrsOf_def colorOf_def)
  qed
  have ns: "k \<notin> set (neighbors n)" if kn: "(k, n) \<in> set ns" for k n
  proof -
    from kn wk have n: "map_of ns k = Some n" by (simp add: in_set_iff_map_of)
    have kD: "k \<in> fst ` set ns" using kn by force
    from absInv_noself [OF ai kD] n show ?thesis by (simp add: nbrsOf_def)
  qed
  show "regionGraph ns"
    unfolding regionGraph_def
  proof (intro conjI)
    show "mapWellFormed ns" using wk by (simp add: mapWellFormed_iff)
    show "symmetricNeighbors ns"
      unfolding symmetricNeighbors_def using facts by fastforce
    show "noSelfNeighbor ns"
      unfolding noSelfNeighbor_def using ns by blast
    show "neighborsAreKeys ns"
      unfolding neighborsAreKeys_def using facts by blast
    show "neighborColorsDiffer ns"
      unfolding neighborColorsDiffer_def using facts by fastforce
  qed
qed

lemma firstResult_upto:
  "firstResult f [i..j] = Inr (Some r) \<Longrightarrow>
     \<exists>l. i \<le> l \<and> l \<le> j \<and> f l = Inr (Some r) \<and> (\<forall>k. i \<le> k \<and> k < l \<longrightarrow> f k = Inr None)"
proof (induction i j rule: upto.induct)
  case (1 i j)
  show ?case
  proof (cases "i \<le> j")
    case False
    with "1.prems" show ?thesis by simp
  next
    case True
    then have u: "[i..j] = i # [i + 1..j]" by (simp add: upto_rec1)
    show ?thesis
    proof (cases "f i")
      case (Inl e)
      with "1.prems" u show ?thesis by simp
    next
      case (Inr v)
      show ?thesis
      proof (cases v)
        case (Some r')
        with Inr "1.prems" u True show ?thesis by (intro exI [of _ i]) auto
      next
        case None
        with Inr "1.prems" u have "firstResult f [i + 1..j] = Inr (Some r)" by simp
        from "1.IH" [OF True this] obtain l where
          l: "i + 1 \<le> l" "l \<le> j" "f l = Inr (Some r)" "\<forall>k. i + 1 \<le> k \<and> k < l \<longrightarrow> f k = Inr None"
          by blast
        have "\<forall>k. i \<le> k \<and> k < l \<longrightarrow> f k = Inr None"
        proof (intro allI impI)
          fix k assume k: "i \<le> k \<and> k < l"
          show "f k = Inr None"
          proof (cases "k = i")
            case True
            with Inr None show ?thesis by simp
          next
            case False
            with k l(4) show ?thesis by simp
          qed
        qed
        with l show ?thesis by (intro exI [of _ l]) simp
      qed
    qed
  qed
qed

lemma solve_minimal_aux:
  assumes gi: "graphInv ns" and s: "solve ns arg = Inr (Some res)"
  shows "reachesGoal ns (path res) \<and> steps res = int (length (path res)) \<and>
         (\<forall>ps. reachesGoal ns ps \<longrightarrow> steps res \<le> int (length ps))"
proof -
  from s obtain m where "firstResult (\<lambda>limit. dfs ns 0 limit []) [0..m] = Inr (Some res)"
    by (auto simp: solve_def limits_def)
  from firstResult_upto [OF this] obtain l where
    l: "0 \<le> l" "dfs ns 0 l [] = Inr (Some res)"
       "\<forall>k. 0 \<le> k \<and> k < l \<longrightarrow> dfs ns 0 k [] = Inr None"
    by blast
  from dfs_sound [OF gi l(2)] have snd: "reachesGoal ns (path res)"
    "steps res = int (length (path res))" by auto
  from dfs_bound [OF gi l(1,2)] have b: "steps res \<le> l" .
  have "steps res \<le> int (length ps)" if rg: "reachesGoal ns ps" for ps
  proof (rule ccontr)
    assume "\<not> steps res \<le> int (length ps)"
    with b snd have lt: "int (length ps) < l" by simp
    have "0 + int (length ps) \<le> int (length ps)" by simp
    from dfs_complete [OF gi rg this, of "[]"] obtain r' where
      "dfs ns 0 (int (length ps)) [] = Inr (Some r')" by blast
    with l(3) lt show False by simp
  qed
  with snd show ?thesis by blast
qed

lemma applyMove_regionGraph:
  assumes "regionGraph ns" "applyMove ns t c = Inr ns'"
  shows "regionGraph ns'"
proof -
  from assms(2) obtain T where T: "map_of ns t = Some T"
    by (auto simp: applyMove_def split: option.splits)
  from assms(1) have "graphInv ns" by (simp add: regionGraph_iff)
  from applyMove_heuristic [OF this T assms(2)] show ?thesis by (simp add: regionGraph_iff)
qed

section \<open>What \<open>applyMove\<close> writes to\<close>

definition refsFrom :: "nat \<Rightarrow> obj \<Rightarrow> bool" where
  \<comment> \<open>the addresses an object holds are at or above \<open>n0\<close>\<close>
  "refsFrom n0 ob =
     (case ob of
        MapObj es \<Rightarrow> \<forall>kv \<in> set es. n0 \<le> snd kv
      | NodeObj i c s nb \<Rightarrow> n0 \<le> nb
      | SetObj xs \<Rightarrow> True)"

definition freshInv :: "nat \<Rightarrow> heap \<Rightarrow> bool" where
  \<comment> \<open>the objects at or above \<open>n0\<close> hold addresses at or above \<open>n0\<close> only\<close>
  "freshInv n0 h \<longleftrightarrow> n0 \<le> length h \<and> (\<forall>a. n0 \<le> a \<and> a < length h \<longrightarrow> refsFrom n0 (h ! a))"

definition safe :: "nat \<Rightarrow> 'a prog \<Rightarrow> ('a \<Rightarrow> bool) \<Rightarrow> bool" where
  \<comment> \<open>a statement that leaves the store below \<open>n0\<close> as it is, keeps \<open>freshInv\<close> and returns
      a value with \<open>Q\<close>\<close>
  "safe n0 m Q \<longleftrightarrow>
     (\<forall>h. freshInv n0 h \<longrightarrow>
        (case m h of (r, h') \<Rightarrow>
           freshInv n0 h' \<and> take n0 h' = take n0 h \<and> (\<forall>x. r = Inr x \<longrightarrow> Q x)))"

lemma safe_ret: "Q x \<Longrightarrow> safe n0 (ret x) Q"
  by (simp add: safe_def ret_def)

lemma safe_throw: "safe n0 (throw e) Q"
  by (simp add: safe_def throw_def)

lemma safe_andThen:
  assumes "safe n0 m P" and "\<And>x. P x \<Longrightarrow> safe n0 (f x) Q"
  shows "safe n0 (andThen m f) Q"
  unfolding safe_def
proof (intro allI impI)
  fix h assume h: "freshInv n0 h"
  obtain r h1 where m: "m h = (r, h1)" by (cases "m h")
  from assms(1) h m have 1: "freshInv n0 h1" "take n0 h1 = take n0 h" "\<forall>x. r = Inr x \<longrightarrow> P x"
    by (auto simp: safe_def)
  show "case andThen m f h of (r, h') \<Rightarrow>
          freshInv n0 h' \<and> take n0 h' = take n0 h \<and> (\<forall>x. r = Inr x \<longrightarrow> Q x)"
  proof (cases r)
    case (Inl e)
    with m 1 show ?thesis by (simp add: andThen_def)
  next
    case (Inr x)
    with 1 have "P x" by simp
    from assms(2) [OF this] 1(1) have
      "case f x h1 of (r, h') \<Rightarrow>
          freshInv n0 h' \<and> take n0 h' = take n0 h1 \<and> (\<forall>x. r = Inr x \<longrightarrow> Q x)"
      by (simp add: safe_def)
    with m Inr 1(2) show ?thesis by (auto simp: andThen_def)
  qed
qed

lemma safe_weaken: "safe n0 m P \<Longrightarrow> (\<And>x. P x \<Longrightarrow> Q x) \<Longrightarrow> safe n0 m Q"
  by (fastforce simp: safe_def)

lemma safe_forEach:
  assumes "\<And>x. safe n0 (f x) (\<lambda>_. True)"
  shows "safe n0 (forEach f xs) (\<lambda>_. True)"
proof (induction xs)
  case Nil
  show ?case by (simp add: safe_ret)
next
  case (Cons x xs)
  show ?case by (simp, rule safe_andThen [OF assms]) (rule Cons.IH)
qed

lemma safe_alloc: "refsFrom n0 ob \<Longrightarrow> safe n0 (alloc ob) (\<lambda>a. n0 \<le> a)"
  by (auto simp: safe_def alloc_def freshInv_def nth_append)

lemma safe_writeObj:
  assumes "n0 \<le> a" "refsFrom n0 ob"
  shows "safe n0 (writeObj a ob) (\<lambda>_. True)"
proof -
  have "refsFrom n0 (h[a := ob] ! b)" if "refsFrom n0 (h ! b)" "b < length h" for h b
    using that assms(2) by (cases "a = b") simp_all
  with assms(1) show ?thesis
    by (simp add: safe_def writeObj_def freshInv_def)
qed

lemma safe_readMap: "safe n0 (readMap a) (\<lambda>es. n0 \<le> a \<longrightarrow> (\<forall>kv \<in> set es. n0 \<le> snd kv))"
  by (auto simp: safe_def readMap_def freshInv_def refsFrom_def split: obj.splits)

lemma safe_readNode: "safe n0 (readNode a) (\<lambda>ob. n0 \<le> a \<longrightarrow> n0 \<le> o_neighbors ob)"
  by (auto simp: safe_def readNode_def freshInv_def refsFrom_def split: obj.splits)

lemma safe_readSet: "safe n0 (readSet a) (\<lambda>_. True)"
  by (auto simp: safe_def readSet_def split: obj.splits)

lemma safe_mapGet: "n0 \<le> m \<Longrightarrow> safe n0 (mapGet m k) (\<lambda>r. \<forall>a. r = Some a \<longrightarrow> n0 \<le> a)"
  unfolding mapGet_def
  by (rule safe_andThen [OF safe_readMap], rule safe_ret) (auto dest!: map_of_SomeD)

lemma safe_mapSet: "n0 \<le> m \<Longrightarrow> n0 \<le> r \<Longrightarrow> safe n0 (mapSet m k r) (\<lambda>_. True)"
  unfolding mapSet_def
  by (rule safe_andThen [OF safe_readMap], rule safe_writeObj) (auto simp: refsFrom_def)

lemma safe_mapDelete: "n0 \<le> m \<Longrightarrow> safe n0 (mapDelete m k) (\<lambda>_. True)"
  unfolding mapDelete_def
  by (rule safe_andThen [OF safe_readMap], rule safe_writeObj) (auto simp: refsFrom_def)

lemma safe_setAdd: "n0 \<le> s \<Longrightarrow> safe n0 (setAdd s x) (\<lambda>_. True)"
  unfolding setAdd_def
  by (rule safe_andThen [OF safe_readSet], rule safe_writeObj) (auto simp: refsFrom_def)

lemma safe_setDelete: "n0 \<le> s \<Longrightarrow> safe n0 (setDelete s x) (\<lambda>_. True)"
  unfolding setDelete_def
  by (rule safe_andThen [OF safe_readSet], rule safe_writeObj) (auto simp: refsFrom_def)

lemma safe_getNode:
  "\<forall>a. r = Some a \<longrightarrow> n0 \<le> a \<Longrightarrow>
   safe n0 (getNode r) (\<lambda>ob. n0 \<le> o_neighbors ob \<and> (\<exists>a. r = Some a \<and> n0 \<le> a))"
  unfolding getNode_def
  by (cases r) (auto simp: safe_throw intro: safe_weaken [OF safe_readNode])

lemma safe_copyEntry: "n0 \<le> newNodes \<Longrightarrow> safe n0 (copyEntry newNodes entry) (\<lambda>_. True)"
  unfolding copyEntry_def
  apply (rule safe_andThen [OF safe_readNode])
  apply (rule safe_andThen [OF safe_readSet])
  apply (rule safe_andThen [OF safe_alloc])
   apply (simp add: refsFrom_def)
  apply (rule safe_andThen [OF safe_alloc])
   apply (simp add: refsFrom_def)
  apply (rule safe_mapSet)
   apply assumption+
  done

lemma safe_collectMerge:
  "n0 \<le> newNodes \<Longrightarrow> safe n0 (collectMerge newNodes newColor nId acc) (\<lambda>_. True)"
  unfolding collectMerge_def
  apply (rule safe_andThen [OF safe_mapGet])
   apply assumption
  subgoal for r
    apply (cases r)
     apply (simp add: safe_ret)
    apply simp
    apply (rule safe_andThen [OF safe_readNode])
    apply (rule safe_ret)
    apply simp
    done
  done

lemma safe_collectAll:
  "n0 \<le> newNodes \<Longrightarrow> safe n0 (collectAll newNodes newColor xs acc) (\<lambda>_. True)"
proof (induction xs arbitrary: acc)
  case Nil
  show ?case by (simp add: safe_ret)
next
  case (Cons x xs)
  show ?case
    by (simp, rule safe_andThen [OF safe_collectMerge [OF Cons.prems]]) (rule Cons.IH [OF Cons.prems])
qed

lemma safe_mergeDeepH:
  assumes "n0 \<le> newNodes" "n0 \<le> targetNode"
  shows "safe n0 (mergeDeepH newNodes targetNode targetId mergeId deepNeighborId) (\<lambda>_. True)"
proof (cases "deepNeighborId = targetId")
  case True
  then show ?thesis by (simp add: mergeDeepH_def safe_ret)
next
  case False
  show ?thesis
    unfolding mergeDeepH_def
    apply (simp add: False)
    apply (rule safe_andThen [OF safe_readNode])
    apply (rule safe_andThen [OF safe_setAdd])
     apply (simp add: assms)
    apply (rule safe_andThen [OF safe_mapGet [OF assms(1)]])
    apply (rule safe_andThen [OF safe_getNode])
     apply assumption
    apply (rule safe_andThen [OF safe_setDelete])
     apply simp
    apply (rule safe_setAdd)
    apply simp
    done
qed

lemma safe_mergeOneH:
  assumes "n0 \<le> newNodes" "n0 \<le> targetNode"
  shows "safe n0 (mergeOneH newNodes targetNode targetId mergeId) (\<lambda>_. True)"
  unfolding mergeOneH_def
  apply (rule safe_andThen [OF safe_mapGet [OF assms(1)]])
  apply (rule safe_andThen [OF safe_getNode])
   apply assumption
  apply (rule safe_andThen [OF safe_readNode])
  apply (rule safe_andThen [OF safe_writeObj])
    apply (rule assms(2))
   apply (simp add: refsFrom_def assms)
  apply (rule safe_andThen [OF safe_setDelete])
   apply (simp add: assms)
  apply (rule safe_andThen [OF safe_readSet])
  apply (rule safe_andThen [OF safe_forEach])
   apply (rule safe_mergeDeepH [OF assms])
  apply (rule safe_mapDelete [OF assms(1)])
  done

lemma safe_applyMoveH: "safe n0 (applyMoveH nodesAddr targetId newColor) (\<lambda>newNodes. n0 \<le> newNodes)"
  unfolding applyMoveH_def
  apply (rule safe_andThen [OF safe_alloc])
   apply (simp add: refsFrom_def)
  apply (rule safe_andThen [OF safe_readMap])
  apply (rule safe_andThen [OF safe_forEach])
   apply (rule safe_copyEntry)
   apply assumption
  apply (rule safe_andThen [OF safe_mapGet])
   apply assumption
  subgoal for newNodes entries u r
    apply (cases r)
     apply (simp add: safe_throw)
    apply simp
    apply (rule safe_andThen [OF safe_readNode])
    apply (rule safe_andThen [OF safe_writeObj])
      apply assumption
     apply (simp add: refsFrom_def)
    apply (rule safe_andThen [OF safe_readSet])
    apply (rule safe_andThen [OF safe_collectAll])
     apply assumption
    apply (rule safe_andThen [OF safe_forEach])
     apply (rule safe_mergeOneH)
      apply assumption
     apply assumption
    apply (rule safe_andThen [OF safe_setDelete])
     apply simp
    apply (rule safe_ret)
    apply assumption
    done
  done

lemma lookup_frame:
  assumes "take (length h) h' = h" "a < length h"
  shows "lookup h' a = lookup h a"
proof -
  from assms(1) have "length h \<le> length h'"
    by (metis length_take min.cobounded1)
  moreover from assms have "h' ! a = h ! a" by (metis nth_take)
  ultimately show ?thesis using assms(2) by (simp add: lookup_def)
qed

lemma readNodeVal_frame:
  assumes "take (length h) h' = h" "readNodeVal h a = Some v"
  shows "readNodeVal h' a = Some v"
proof -
  from assms(2) obtain i c s nb xs where
    1: "lookup h a = Some (NodeObj i c s nb)" and 2: "lookup h nb = Some (SetObj xs)"
    and v: "v = \<lparr>id_node = i, color = c, size_node = s, neighbors = xs\<rparr>"
    by (auto simp: readNodeVal_def split: option.splits obj.splits)
  from 1 2 have "a < length h" "nb < length h" by (auto simp: lookup_def split: if_splits)
  with lookup_frame [OF assms(1)] 1 2 v show ?thesis by (simp add: readNodeVal_def)
qed

lemma those_frame:
  assumes "\<And>a v. f a = Some v \<Longrightarrow> f' a = Some v"
  shows "those (map (\<lambda>kv. map_option (Pair (fst kv)) (f (snd kv))) es) = Some g \<Longrightarrow>
         those (map (\<lambda>kv. map_option (Pair (fst kv)) (f' (snd kv))) es) = Some g"
proof (induction es arbitrary: g)
  case Nil
  then show ?case by simp
next
  case (Cons e es)
  then show ?case by (auto simp: assms split: option.splits)
qed

lemma readGraph_frame:
  assumes "take (length h) h' = h" "readGraph h m = Some g"
  shows "readGraph h' m = Some g"
proof -
  from assms(2) obtain es where
    1: "lookup h m = Some (MapObj es)"
    and 2: "those (map (\<lambda>kv. map_option (Pair (fst kv)) (readNodeVal h (snd kv))) es) = Some g"
    by (auto simp: readGraph_def split: option.splits obj.splits)
  from 1 have "m < length h" by (auto simp: lookup_def split: if_splits)
  with lookup_frame [OF assms(1)] 1 have "lookup h' m = Some (MapObj es)" by simp
  moreover from those_frame [of "readNodeVal h" "readNodeVal h'", OF readNodeVal_frame [OF assms(1)] 2]
  have "those (map (\<lambda>kv. map_option (Pair (fst kv)) (readNodeVal h' (snd kv))) es) = Some g" .
  ultimately show ?thesis by (simp add: readGraph_def)
qed

section \<open>Adjacency\<close>

lemma getNeighbors_inBounds:
  "inBounds gg (r, c) \<Longrightarrow> n \<in> set (getNeighbors gg r c) \<Longrightarrow> inBounds gg n"
  by (auto simp: getNeighbors_def inBounds_def Let_def split: if_splits)

lemma getNeighbors_sym:
  assumes "inBounds gg (r, c)" "(r', c') \<in> set (getNeighbors gg r c)"
  shows "(r, c) \<in> set (getNeighbors gg r' c')"
proof -
  have par: "(r + c) mod 2 = 0 \<Longrightarrow> c > 0 \<Longrightarrow> (r + (c - 1)) mod 2 \<noteq> 0"
    by presburger
  have par2: "(r + c) mod 2 \<noteq> 0 \<Longrightarrow> (r + (c + 1)) mod 2 = 0"
    by presburger
  from assms show ?thesis
    using par par2
    by (auto simp: getNeighbors_def inBounds_def Let_def split: if_splits; presburger)
qed

lemma getNeighbors_irrefl: "(r, c) \<notin> set (getNeighbors gg r c)"
  by (auto simp: getNeighbors_def Let_def)

section \<open>Union-Find\<close>

lemma conn_refl [simp]: "(x, x) \<in> conn E"
  by (simp add: conn_def)

lemma conn_sym: "(x, y) \<in> conn E \<Longrightarrow> (y, x) \<in> conn E"
proof -
  assume "(x, y) \<in> conn E"
  then have "(y, x) \<in> ((E \<union> E\<inverse>)\<^sup>*)\<inverse>" by (simp add: conn_def)
  also have "((E \<union> E\<inverse>)\<^sup>*)\<inverse> = ((E \<union> E\<inverse>)\<inverse>)\<^sup>*" by (rule rtrancl_converse [symmetric])
  also have "(E \<union> E\<inverse>)\<inverse> = E \<union> E\<inverse>" by auto
  finally show ?thesis by (simp add: conn_def)
qed

lemma conn_trans: "(x, y) \<in> conn E \<Longrightarrow> (y, z) \<in> conn E \<Longrightarrow> (x, z) \<in> conn E"
  by (simp add: conn_def)

lemma conn_edge: "(x, y) \<in> E \<Longrightarrow> (x, y) \<in> conn E"
  by (auto simp: conn_def)

lemma conn_least:
  assumes sub: "E \<subseteq> R" and r: "\<And>x. (x, x) \<in> R" and s: "\<And>x y. (x, y) \<in> R \<Longrightarrow> (y, x) \<in> R"
    and t: "\<And>x y z. (x, y) \<in> R \<Longrightarrow> (y, z) \<in> R \<Longrightarrow> (x, z) \<in> R"
  shows "conn E \<subseteq> R"
proof
  fix p assume "p \<in> conn E"
  then obtain x y where p: "p = (x, y)" "(x, y) \<in> (E \<union> E\<inverse>)\<^sup>*" by (cases p) (auto simp: conn_def)
  from p(2) have "(x, y) \<in> R"
  proof (induction rule: rtrancl_induct)
    case base
    show ?case by (rule r)
  next
    case (step y z)
    from step.hyps(2) have "(y, z) \<in> R" using sub s by auto
    with step.IH show ?case by (rule t)
  qed
  with p show "p \<in> R" by simp
qed

lemma conn_mono_closure: "E \<subseteq> conn F \<Longrightarrow> conn E \<subseteq> conn F"
  by (rule conn_least) (auto intro: conn_sym conn_trans)

lemma conn_eqI: "E \<subseteq> conn F \<Longrightarrow> F \<subseteq> conn E \<Longrightarrow> conn E = conn F"
  by (intro equalityI conn_mono_closure)

lemma ufInv_new: "ufInv n (uf_new n)"
  by (auto simp: ufInv_def uf_new_def)

lemma ufRep_new: "ufRep n (uf_new n) {}"
  using ufInv_new [of n] by (auto simp: ufRep_def uf_find_def uf_new_def conn_def)

lemma uf_find_less: "ufInv n u \<Longrightarrow> x < n \<Longrightarrow> uf_find u x < n \<and> uf_find u (uf_find u x) = uf_find u x"
  by (auto simp: ufInv_def uf_find_def)

lemma uf_find_union:
  assumes "ufInv n u" "x < n"
  shows "uf_find (uf_union u i j) x =
           (if uf_find u x = uf_find u j then uf_find u i else uf_find u x)"
  using assms by (auto simp: uf_union_def Let_def uf_find_def ufInv_def)

lemma card_relabel:
  assumes "a \<in> set ps" "b \<in> set ps" "a \<noteq> b"
  shows "card (set (map (\<lambda>p. if p = b then a else p) ps)) = card (set ps) - 1"
proof -
  have "set (map (\<lambda>p. if p = b then a else p) ps) = set ps - {b}"
    using assms by auto
  then show ?thesis using assms by simp
qed

lemma ufInv_union:
  assumes inv: "ufInv n u" and i: "i < n" and j: "j < n"
  shows "ufInv n (uf_union u i j)"
proof (cases "uf_find u i = uf_find u j")
  case True
  then show ?thesis using inv by (simp add: uf_union_def)
next
  case False
  let ?ri = "uf_find u i" and ?rj = "uf_find u j"
  define ps where "ps = map (\<lambda>p. if p = ?rj then ?ri else p) (parent u)"
  have u': "uf_union u i j = \<lparr>parent = ps, count = count u - 1\<rparr>"
    using False by (simp add: uf_union_def Let_def ps_def)
  have len: "length (parent u) = n" using inv by (simp add: ufInv_def)
  have ri: "?ri < n" "parent u ! ?ri = ?ri"
  proof -
    from uf_find_less [OF inv i] show a: "?ri < n" by simp
    from uf_find_less [OF inv i] have "uf_find u ?ri = ?ri" by simp
    with a len show "parent u ! ?ri = ?ri" by (simp add: uf_find_def)
  qed
  have rj: "?rj < n" "parent u ! ?rj = ?rj"
  proof -
    from uf_find_less [OF inv j] show a: "?rj < n" by simp
    from uf_find_less [OF inv j] have "uf_find u ?rj = ?rj" by simp
    with a len show "parent u ! ?rj = ?rj" by (simp add: uf_find_def)
  qed
  have mem: "?ri \<in> set (parent u)" "?rj \<in> set (parent u)"
    using i j len by (auto simp: uf_find_def)
  have cnt: "count u = card (set (parent u))" using inv by (simp add: ufInv_def)
  have c1: "card (set ps) = card (set (parent u)) - 1"
    unfolding ps_def by (rule card_relabel [OF mem False])
  have c2: "\<forall>k<n. ps ! k < n \<and> ps ! (ps ! k) = ps ! k"
  proof (intro allI impI)
    fix k assume k: "k < n"
    from inv k have pk: "parent u ! k < n" "parent u ! (parent u ! k) = parent u ! k"
      by (auto simp: ufInv_def)
    have nth: "ps ! m = (if parent u ! m = ?rj then ?ri else parent u ! m)" if "m < n" for m
      using that len by (simp add: ps_def)
    show "ps ! k < n \<and> ps ! (ps ! k) = ps ! k"
    proof (cases "parent u ! k = ?rj")
      case True
      then have "ps ! k = ?ri" using nth [OF k] by simp
      moreover have "ps ! ?ri = ?ri" using nth [OF ri(1)] ri(2) False by simp
      ultimately show ?thesis using ri(1) by simp
    next
      case nr: False
      then have e: "ps ! k = parent u ! k" using nth [OF k] by simp
      have "ps ! (parent u ! k) = parent u ! k" using nth [OF pk(1)] pk(2) nr by simp
      with e pk(1) show ?thesis by simp
    qed
  qed
  have c3: "length ps = n" using len by (simp add: ps_def)
  show ?thesis unfolding u' ufInv_def using c1 c2 c3 cnt by simp
qed

lemma ufRep_union:
  assumes rep: "ufRep n u E" and i: "i < n" and j: "j < n"
  shows "ufRep n (uf_union u i j) (insert (i, j) E)"
proof -
  from rep have inv: "ufInv n u" and EE: "E \<subseteq> {..<n} \<times> {..<n}" and
    eq: "\<And>x y. x < n \<Longrightarrow> y < n \<Longrightarrow> uf_find u x = uf_find u y \<longleftrightarrow> (x, y) \<in> conn E"
    by (auto simp: ufRep_def)
  let ?u = "uf_union u i j" and ?E = "insert (i, j) E"
  note fu = uf_find_union [OF inv]
  have sub: "conn E \<subseteq> conn ?E" by (rule conn_mono_closure) (auto intro: conn_edge)
  have ij: "(i, j) \<in> conn ?E" by (rule conn_edge) simp
  have "uf_find ?u x = uf_find ?u y \<longleftrightarrow> (x, y) \<in> conn ?E" if x: "x < n" and y: "y < n" for x y
  proof
    assume a: "uf_find ?u x = uf_find ?u y"
    consider (nn) "uf_find u x \<noteq> uf_find u j" "uf_find u y \<noteq> uf_find u j"
      | (jn) "uf_find u x = uf_find u j" "uf_find u y \<noteq> uf_find u j"
      | (nj) "uf_find u x \<noteq> uf_find u j" "uf_find u y = uf_find u j"
      | (jj) "uf_find u x = uf_find u j" "uf_find u y = uf_find u j" by blast
    then show "(x, y) \<in> conn ?E"
    proof cases
      case nn
      with a fu [OF x] fu [OF y] have "uf_find u x = uf_find u y" by simp
      with eq [OF x y] sub show ?thesis by auto
    next
      case jn
      with a fu [OF x] fu [OF y] have "uf_find u i = uf_find u y" by simp
      with eq [OF i y] sub have iy: "(i, y) \<in> conn ?E" by auto
      from jn eq [OF x j] sub have xj: "(x, j) \<in> conn ?E" by auto
      have "(x, i) \<in> conn ?E" by (rule conn_trans [OF xj conn_sym [OF ij]])
      then show ?thesis using iy by (rule conn_trans)
    next
      case nj
      with a fu [OF x] fu [OF y] have "uf_find u x = uf_find u i" by simp
      with eq [OF x i] sub have xi: "(x, i) \<in> conn ?E" by auto
      from nj eq [OF j y] sub have "(j, y) \<in> conn ?E" by auto
      with ij have "(i, y) \<in> conn ?E" by (rule conn_trans)
      with xi show ?thesis by (rule conn_trans)
    next
      case jj
      then have "uf_find u x = uf_find u y" by simp
      with eq [OF x y] sub show ?thesis by auto
    qed
  next
    assume "(x, y) \<in> conn ?E"
    then have xy: "(x, y) \<in> (?E \<union> ?E\<inverse>)\<^sup>*" by (simp add: conn_def)
    let ?R = "{(a, b). a < n \<longrightarrow> (b < n \<and> uf_find ?u a = uf_find ?u b)}"
    have "(x, y) \<in> ?R" using xy
    proof (induction rule: rtrancl_induct)
      case base
      show ?case by simp
    next
      case (step b c)
      show ?case
      proof (cases "x < n")
        case False
        then show ?thesis by simp
      next
        case True
        with step.IH have b: "b < n" "uf_find ?u x = uf_find ?u b" by auto
        from step.hyps(2) have "(b, c) \<in> E \<or> (c, b) \<in> E \<or> (b = i \<and> c = j) \<or> (b = j \<and> c = i)"
          by auto
        then have "c < n \<and> uf_find ?u b = uf_find ?u c"
        proof (elim disjE)
          assume e: "(b, c) \<in> E"
          with EE have c: "c < n" by auto
          from e have "(b, c) \<in> conn E" by (rule conn_edge)
          with eq [OF b(1) c] have "uf_find u b = uf_find u c" by simp
          with c fu [OF b(1)] fu [OF c] show ?thesis by simp
        next
          assume e: "(c, b) \<in> E"
          with EE have c: "c < n" by auto
          from e have "(c, b) \<in> conn E" by (rule conn_edge)
          with eq [OF c b(1)] have "uf_find u b = uf_find u c" by simp
          with c fu [OF b(1)] fu [OF c] show ?thesis by simp
        next
          assume "b = i \<and> c = j"
          then show ?thesis using j fu [OF i] fu [OF j] by simp
        next
          assume "b = j \<and> c = i"
          then show ?thesis using i fu [OF i] fu [OF j] by simp
        qed
        with b show ?thesis by simp
      qed
    qed
    with x show "uf_find ?u x = uf_find ?u y" by simp
  qed
  with ufInv_union [OF inv i j] EE i j show ?thesis by (simp add: ufRep_def)
qed

section \<open>\<open>buildUnionFind\<close> computes the regions\<close>

text \<open>
  On a colour array of the declared shape, \<open>buildUnionFind\<close> leaves a Union-Find in which
  two cells have one representative exactly when a chain of neighbouring cells of one
  colour connects them.
\<close>

lemma gridShape_shapeOf: "gridShape gg \<and> noHoles gg \<longleftrightarrow> shapeOf gg (grid gg)"
  by (auto simp: gridShape_def noHoles_def shapeOf_def)

lemma cells_iff: "a \<in> cells gg \<longleftrightarrow> fst a < nat (rows gg) \<and> snd a < nat (cols gg)"
  by (auto simp: cells_def inBounds_def)

lemma finite_cells [simp]: "finite (cells gg)"
proof -
  have "cells gg \<subseteq> {..<nat (rows gg)} \<times> {..<nat (cols gg)}"
    by (auto simp: cells_iff)
  then show ?thesis by (rule finite_subset) simp
qed

lemma idxOf_less: "a \<in> cells gg \<Longrightarrow> idxOf gg a < cellCount gg"
proof -
  assume "a \<in> cells gg"
  then have r: "fst a < nat (rows gg)" and c: "snd a < nat (cols gg)" by (auto simp: cells_iff)
  have "fst a * nat (cols gg) + snd a < fst a * nat (cols gg) + nat (cols gg)" using c by simp
  also have "\<dots> = (fst a + 1) * nat (cols gg)" by simp
  also have "\<dots> \<le> nat (rows gg) * nat (cols gg)" using r by (intro mult_le_mono1) simp
  finally show ?thesis by (simp add: idxOf_def idx_def cellCount_def)
qed

lemma idxOf_inj: "a \<in> cells gg \<Longrightarrow> b \<in> cells gg \<Longrightarrow> idxOf gg a = idxOf gg b \<Longrightarrow> a = b"
proof -
  assume a: "a \<in> cells gg" and b: "b \<in> cells gg" and e: "idxOf gg a = idxOf gg b"
  let ?C = "nat (cols gg)"
  from a b have ca: "snd a < ?C" and cb: "snd b < ?C" by (auto simp: cells_iff)
  from e have e': "fst a * ?C + snd a = fst b * ?C + snd b" by (simp add: idxOf_def idx_def)
  then have "(fst a * ?C + snd a) div ?C = (fst b * ?C + snd b) div ?C" by simp
  with ca cb have "fst a = fst b" by simp
  with e' have "snd a = snd b" by simp
  with \<open>fst a = fst b\<close> show "a = b" by (simp add: prod_eq_iff)
qed

lemma neighbors_in_cells:
  "a \<in> cells gg \<Longrightarrow> b \<in> set (getNeighbors gg (fst a) (snd a)) \<Longrightarrow> b \<in> cells gg"
  using getNeighbors_inBounds [of gg "fst a" "snd a" b] by (simp add: cells_def)

lemma neighbors_sym:
  "a \<in> cells gg \<Longrightarrow> b \<in> set (getNeighbors gg (fst a) (snd a)) \<Longrightarrow>
     a \<in> set (getNeighbors gg (fst b) (snd b))"
  using getNeighbors_sym [of gg "fst a" "snd a" "fst b" "snd b"] by (simp add: cells_def)

lemma gridAt_cell: "gridAt g (snd a) (fst a) = cellAt g a"
  by (simp add: cellAt_def)

lemma cellAt_Some: "shapeOf gg g \<Longrightarrow> a \<in> cells gg \<Longrightarrow> \<exists>v. cellAt g a = Some v"
proof -
  assume s: "shapeOf gg g" and a: "a \<in> cells gg"
  then have c: "snd a < length g" by (simp add: shapeOf_def cells_iff)
  then have m: "g ! snd a \<in> set g" by simp
  with s a have r: "fst a < length (g ! snd a)" by (simp add: shapeOf_def cells_iff)
  then have "g ! snd a ! fst a \<in> set (g ! snd a)" by simp
  with s m have "g ! snd a ! fst a \<noteq> None" by (metis shapeOf_def)
  with c r show ?thesis by (simp add: cellAt_def gridAt_def)
qed

lemma edgesFrom_bounds: "S \<subseteq> cells gg \<Longrightarrow> edgesFrom gg g S \<subseteq> {..<cellCount gg} \<times> {..<cellCount gg}"
  using idxOf_less neighbors_in_cells by (fastforce simp: edgesFrom_def)

lemma edgesFrom_Un: "edgesFrom gg g (S \<union> T) = edgesFrom gg g S \<union> edgesFrom gg g T"
  by (auto simp: edgesFrom_def)

lemma edgesFrom_empty [simp]: "edgesFrom gg g {} = {}"
  by (simp add: edgesFrom_def)

lemma unionCell_fold:
  assumes "ufRep (cellCount gg) u E" "shapeOf gg g" "a \<in> cells gg" "set ns \<subseteq> cells gg"
  shows "ufRep (cellCount gg)
           (fold (\<lambda>n u. if inBounds gg n \<and> gridAt g (snd n) (fst n) = Some col
                         then uf_union u (idx gg (fst a) (snd a)) (idx gg (fst n) (snd n))
                         else u) ns u)
           (E \<union> (\<lambda>b. (idxOf gg a, idxOf gg b)) ` {b \<in> set ns. cellAt g b = Some col})"
  using assms(1,4)
proof (induction ns arbitrary: u E)
  case Nil
  then show ?case by simp
next
  case (Cons n ns)
  from Cons.prems have n: "n \<in> cells gg" by simp
  let ?u1 = "if inBounds gg n \<and> gridAt g (snd n) (fst n) = Some col
             then uf_union u (idx gg (fst a) (snd a)) (idx gg (fst n) (snd n)) else u"
  let ?E1 = "E \<union> (\<lambda>b. (idxOf gg a, idxOf gg b)) ` {b \<in> {n}. cellAt g b = Some col}"
  have r1: "ufRep (cellCount gg) ?u1 ?E1"
  proof (cases "cellAt g n = Some col")
    case True
    have "ufRep (cellCount gg) (uf_union u (idxOf gg a) (idxOf gg n)) (insert (idxOf gg a, idxOf gg n) E)"
      by (rule ufRep_union [OF Cons.prems(1) idxOf_less [OF assms(3)] idxOf_less [OF n]])
    moreover have "?E1 = insert (idxOf gg a, idxOf gg n) E" using True by auto
    moreover have "?u1 = uf_union u (idxOf gg a) (idxOf gg n)"
      using True n gridAt_cell [of g n] by (simp add: cells_def idxOf_def)
    ultimately show ?thesis by simp
  next
    case False
    then have "?E1 = E" by auto
    moreover have "?u1 = u" using False gridAt_cell [of g n] by simp
    ultimately show ?thesis using Cons.prems(1) by simp
  qed
  from Cons.prems have "set ns \<subseteq> cells gg" by simp
  from Cons.IH [OF r1 this]
  have "ufRep (cellCount gg)
          (fold (\<lambda>n u. if inBounds gg n \<and> gridAt g (snd n) (fst n) = Some col
                         then uf_union u (idx gg (fst a) (snd a)) (idx gg (fst n) (snd n))
                         else u) ns ?u1)
          (?E1 \<union> (\<lambda>b. (idxOf gg a, idxOf gg b)) ` {b \<in> set ns. cellAt g b = Some col})" .
  moreover have "?E1 \<union> (\<lambda>b. (idxOf gg a, idxOf gg b)) ` {b \<in> set ns. cellAt g b = Some col}
      = E \<union> (\<lambda>b. (idxOf gg a, idxOf gg b)) ` {b \<in> set (n # ns). cellAt g b = Some col}"
    by auto
  ultimately show ?case by simp
qed

lemma unionCell_rep:
  assumes "ufRep (cellCount gg) u E" "shapeOf gg g" "a \<in> cells gg"
  shows "ufRep (cellCount gg) (unionCell gg g a col u)
           (E \<union> (\<lambda>b. (idxOf gg a, idxOf gg b)) `
                {b \<in> set (getNeighbors gg (fst a) (snd a)). cellAt g b = Some col})"
proof -
  have "set (getNeighbors gg (fst a) (snd a)) \<subseteq> cells gg"
    using neighbors_in_cells [OF assms(3)] by blast
  from unionCell_fold [OF assms this] show ?thesis by (simp add: unionCell_def)
qed

lemma unionCell_own:
  assumes "ufRep (cellCount gg) u E" "shapeOf gg g" "a \<in> cells gg" "cellAt g a = Some v"
  shows "ufRep (cellCount gg) (unionCell gg g a v u) (E \<union> edgesFrom gg g {a})"
proof -
  have "edgesFrom gg g {a} = (\<lambda>b. (idxOf gg a, idxOf gg b)) `
                {b \<in> set (getNeighbors gg (fst a) (snd a)). cellAt g b = Some v}"
    by (simp add: edgesFrom_def assms(4))
  with unionCell_rep [OF assms(1-3), of v] show ?thesis by simp
qed

lemma build_inner:
  assumes "ufRep (cellCount gg) u E" "shapeOf gg g" "r < nat (rows gg)" "set cs \<subseteq> {..<nat (cols gg)}"
  shows "ufRep (cellCount gg)
           (fold (\<lambda>c u. case gridAt g c r of None \<Rightarrow> u
                         | Some currentColorIndex \<Rightarrow> unionCell gg g (r, c) currentColorIndex u) cs u)
           (E \<union> edgesFrom gg g (Pair r ` set cs))"
  using assms(1,4)
proof (induction cs arbitrary: u E)
  case Nil
  then show ?case by simp
next
  case (Cons c cs)
  from Cons.prems assms(3) have a: "(r, c) \<in> cells gg" by (simp add: cells_iff)
  from cellAt_Some [OF assms(2) a] obtain v where v: "cellAt g (r, c) = Some v" by blast
  then have ga: "gridAt g c r = Some v" by (simp add: cellAt_def)
  from unionCell_own [OF Cons.prems(1) assms(2) a v]
  have r1: "ufRep (cellCount gg) (unionCell gg g (r, c) v u) (E \<union> edgesFrom gg g {(r, c)})" .
  from Cons.prems have "set cs \<subseteq> {..<nat (cols gg)}" by simp
  from Cons.IH [OF r1 this]
  have "ufRep (cellCount gg)
          (fold (\<lambda>c u. case gridAt g c r of None \<Rightarrow> u
                         | Some currentColorIndex \<Rightarrow> unionCell gg g (r, c) currentColorIndex u) cs
             (unionCell gg g (r, c) v u))
          (E \<union> edgesFrom gg g {(r, c)} \<union> edgesFrom gg g (Pair r ` set cs))" .
  moreover have "Pair r ` set (c # cs) = {(r, c)} \<union> (Pair r ` set cs)"
    by auto
  ultimately show ?case by (simp only: fold_simps ga option.case edgesFrom_Un Un_assoc)
qed

lemma build_outer:
  assumes "ufRep (cellCount gg) u E" "shapeOf gg g" "set rs \<subseteq> {..<nat (rows gg)}"
  shows "ufRep (cellCount gg)
           (fold (\<lambda>r u. fold (\<lambda>c u. case gridAt g c r of None \<Rightarrow> u
                         | Some currentColorIndex \<Rightarrow> unionCell gg g (r, c) currentColorIndex u)
                    [0..<nat (cols gg)] u) rs u)
           (E \<union> edgesFrom gg g (set rs \<times> {..<nat (cols gg)}))"
  using assms(1,3)
proof (induction rs arbitrary: u E)
  case Nil
  then show ?case by simp
next
  case (Cons r rs)
  from Cons.prems have r: "r < nat (rows gg)" by simp
  have "set [0..<nat (cols gg)] \<subseteq> {..<nat (cols gg)}" by auto
  from build_inner [OF Cons.prems(1) assms(2) r this]
  have r1: "ufRep (cellCount gg)
           (fold (\<lambda>c u. case gridAt g c r of None \<Rightarrow> u
                         | Some currentColorIndex \<Rightarrow> unionCell gg g (r, c) currentColorIndex u)
              [0..<nat (cols gg)] u)
           (E \<union> edgesFrom gg g (Pair r ` set [0..<nat (cols gg)]))" .
  from Cons.prems have "set rs \<subseteq> {..<nat (rows gg)}" by simp
  note ih = Cons.IH [OF r1 this]
  have "set (r # rs) \<times> {..<nat (cols gg)}
      = (Pair r ` set [0..<nat (cols gg)]) \<union> (set rs \<times> {..<nat (cols gg)})"
    by auto
  with ih show ?case by (simp only: fold_simps edgesFrom_Un Un_assoc)
qed

lemma buildUnionFind_rep:
  assumes d: "wfDims gg" and s: "gridShape gg" and nh: "noHoles gg"
  shows "ufRep (cellCount gg) (buildUnionFind gg) (edgesFrom gg (grid gg) (cells gg))"
proof (cases "cols gg = 0")
  case True
  then have e: "cells gg = {}" by (auto simp: cells_iff)
  from True s have "length (grid gg) = 0" by (simp add: gridShape_def)
  then have "buildUnionFind gg = uf_new (nat (rows gg * cols gg))"
    by (simp add: buildUnionFind_def)
  with True show ?thesis using ufRep_new [of 0] by (simp add: e cellCount_def)
next
  case False
  with d have c: "0 < cols gg" and r: "0 < rows gg" by (auto simp: wfDims_def)
  from s nh have sh: "shapeOf gg (grid gg)" using gridShape_shapeOf by blast
  from s c have l: "length (grid gg) = nat (cols gg)" "length (grid gg) \<noteq> 0"
    by (auto simp: gridShape_def)
  then have "grid gg ! 0 \<in> set (grid gg)" by (intro nth_mem) simp
  with s have l0: "length (grid gg ! 0) = nat (rows gg)" by (simp add: gridShape_def)
  have tc: "nat (rows gg * cols gg) = cellCount gg"
    using r c by (simp add: cellCount_def nat_mult_distrib)
  have guard: "\<not> (length (grid gg) = 0 \<or> int (length (grid gg)) < cols gg \<or> length (grid gg ! 0) = 0
            \<or> int (length (grid gg ! 0)) < rows gg)"
    using l l0 r c by simp
  have b: "buildUnionFind gg =
      fold (\<lambda>r u. fold (\<lambda>c u. case gridAt (grid gg) c r of None \<Rightarrow> u
                         | Some currentColorIndex \<Rightarrow> unionCell gg (grid gg) (r, c) currentColorIndex u)
                    [0..<nat (cols gg)] u) [0..<nat (rows gg)] (uf_new (cellCount gg))"
    using guard by (simp add: buildUnionFind_def Let_def tc)
  have "set [0..<nat (rows gg)] \<subseteq> {..<nat (rows gg)}" by auto
  from build_outer [OF ufRep_new sh this]
  have "ufRep (cellCount gg) (buildUnionFind gg)
          ({} \<union> edgesFrom gg (grid gg) (set [0..<nat (rows gg)] \<times> {..<nat (cols gg)}))"
    by (simp only: b)
  moreover have "(set [0..<nat (rows gg)] \<times> {..<nat (cols gg)}) = cells gg"
    by (auto simp: cells_iff)
  ultimately show ?thesis by simp
qed

section \<open>\<open>floodFill\<close> keeps the Union-Find consistent\<close>

text \<open>
  While \<open>floodFill\<close> runs, the Union-Find connects what the array connected before the
  call and what it connects now; when the queue is empty the first is part of the second.
\<close>

lemma ufRep_cong:
  "ufRep n u E \<Longrightarrow> conn E = conn F \<Longrightarrow> F \<subseteq> {..<n} \<times> {..<n} \<Longrightarrow> ufRep n u F"
  by (simp add: ufRep_def)

lemma conn_sub: "E \<subseteq> conn E"
  by (auto simp: conn_def)

lemma ufRep_bounds: "ufRep n u E \<Longrightarrow> E \<subseteq> {..<n} \<times> {..<n}"
  by (simp add: ufRep_def)

lemma cellAt_setCell:
  assumes "shapeOf gg g" "n \<in> cells gg" "b \<in> cells gg"
  shows "cellAt (setCell g n v) b = (if b = n then Some v else cellAt g b)"
proof -
  from assms have l: "snd n < length g" "snd b < length g"
    by (auto simp: shapeOf_def cells_iff)
  then have "g ! snd n \<in> set g" "g ! snd b \<in> set g" by simp_all
  with assms have r: "fst n < length (g ! snd n)" "fst b < length (g ! snd b)"
    by (auto simp: shapeOf_def cells_iff)
  show ?thesis
  proof (cases "snd b = snd n")
    case True
    with l r show ?thesis
      by (cases "fst b = fst n") (auto simp: cellAt_def gridAt_def setCell_def prod_eq_iff)
  next
    case False
    with l r show ?thesis by (auto simp: cellAt_def gridAt_def setCell_def)
  qed
qed

lemma shapeOf_setCell:
  assumes s: "shapeOf gg g" and n: "n \<in> cells gg"
  shows "shapeOf gg (setCell g n v)"
proof -
  from s n have l: "snd n < length g" by (simp add: shapeOf_def cells_iff)
  then have m: "g ! snd n \<in> set g" by simp
  with s n have r: "fst n < length (g ! snd n)" by (simp add: shapeOf_def cells_iff)
  then have e: "setCell g n v = g[snd n := (g ! snd n)[fst n := Some v]]"
    by (simp add: setCell_def)
  have "length col = nat (rows gg) \<and> None \<notin> set col" if "col \<in> set (setCell g n v)" for col
  proof -
    from that have "col \<in> insert ((g ! snd n)[fst n := Some v]) (set g)"
      unfolding e using set_update_subset_insert by fastforce
    then show ?thesis
    proof
      assume c: "col = (g ! snd n)[fst n := Some v]"
      from s m have "length (g ! snd n) = nat (rows gg)" "None \<notin> set (g ! snd n)"
        by (simp_all add: shapeOf_def)
      moreover have "set col \<subseteq> insert (Some v) (set (g ! snd n))"
        unfolding c by (rule set_update_subset_insert)
      ultimately show ?thesis using c by auto
    next
      assume "col \<in> set g"
      with s show ?thesis by (simp add: shapeOf_def)
    qed
  qed
  with s show ?thesis by (simp add: shapeOf_def e)
qed

lemma edgesFrom_iff:
  "(i, j) \<in> edgesFrom gg g S \<longleftrightarrow>
     (\<exists>a b. a \<in> S \<and> b \<in> set (getNeighbors gg (fst a) (snd a)) \<and> cellAt g b = cellAt g a \<and>
        i = idxOf gg a \<and> j = idxOf gg b)"
  unfolding edgesFrom_def by blast

lemma edgesFromI:
  "a \<in> S \<Longrightarrow> b \<in> set (getNeighbors gg (fst a) (snd a)) \<Longrightarrow> cellAt g b = cellAt g a \<Longrightarrow>
     (idxOf gg a, idxOf gg b) \<in> edgesFrom gg g S"
  unfolding edgesFrom_iff by blast

lemma neighbor_neq: "b \<in> set (getNeighbors gg (fst a) (snd a)) \<Longrightarrow> b \<noteq> a"
  using getNeighbors_irrefl [of "fst a" "snd a" gg] by auto

text \<open>Recolouring one cell that still has the old colour.\<close>

lemma recolor_rep:
  assumes sh: "shapeOf gg g'" and n: "n \<in> cells gg" and old: "cellAt g' n = old" "cellAt g0 n = old"
    and ne: "old \<noteq> Some new"
    and still: "\<forall>b \<in> cells gg. cellAt g' b = old \<longrightarrow> cellAt g0 b = old"
    and rep: "ufRep (cellCount gg) u (edgesFrom gg g0 (cells gg) \<union> edgesFrom gg g' (cells gg) \<union> X)"
    and X: "X \<subseteq> edgesFrom gg (setCell g' n new) (cells gg)"
  shows "ufRep (cellCount gg) (unionCell gg (setCell g' n new) n new u)
           (edgesFrom gg g0 (cells gg) \<union> edgesFrom gg (setCell g' n new) (cells gg))"
proof -
  let ?C = "cells gg" and ?g = "setCell g' n new"
  let ?E0 = "edgesFrom gg g0 ?C" and ?E' = "edgesFrom gg g' ?C" and ?E'' = "edgesFrom gg ?g ?C"
  let ?A = "(\<lambda>b. (idxOf gg n, idxOf gg b)) ` {b \<in> set (getNeighbors gg (fst n) (snd n)). cellAt ?g b = Some new}"
  have sh': "shapeOf gg ?g" by (rule shapeOf_setCell [OF sh n])
  have at: "cellAt ?g b = (if b = n then Some new else cellAt g' b)" if "b \<in> ?C" for b
    by (rule cellAt_setCell [OF sh n that])
  from unionCell_rep [OF rep sh' n, of new]
  have r1: "ufRep (cellCount gg) (unionCell gg ?g n new u) (?E0 \<union> ?E' \<union> X \<union> ?A)" .
  have A: "?A \<subseteq> ?E''"
  proof
    fix p assume "p \<in> ?A"
    then obtain b where b: "b \<in> set (getNeighbors gg (fst n) (snd n))" "cellAt ?g b = Some new"
      "p = (idxOf gg n, idxOf gg b)" by auto
    have "cellAt ?g n = Some new" using at [OF n] by simp
    with b show "p \<in> ?E''" using edgesFromI [OF n b(1), of ?g] by simp
  qed
  have E': "?E' \<subseteq> ?E0 \<union> ?E''"
  proof
    fix p assume "p \<in> ?E'"
    then obtain a b where ab: "a \<in> ?C" "b \<in> set (getNeighbors gg (fst a) (snd a))"
      "cellAt g' b = cellAt g' a" "p = (idxOf gg a, idxOf gg b)"
      by (cases p) (auto simp: edgesFrom_iff)
    have bC: "b \<in> ?C" by (rule neighbors_in_cells [OF ab(1,2)])
    have nb: "b \<noteq> a" by (rule neighbor_neq [OF ab(2)])
    show "p \<in> ?E0 \<union> ?E''"
    proof (cases "a = n \<or> b = n")
      case True
      then have "cellAt g' a = old" "cellAt g' b = old" using ab(3) old(1) by auto
      then have "cellAt g0 a = old" "cellAt g0 b = old" using still ab(1) bC by auto
      then show ?thesis using edgesFromI [OF ab(1,2), of g0] ab(4) by simp
    next
      case False
      then have "cellAt ?g b = cellAt ?g a" using at [OF ab(1)] at [OF bC] ab(3) by simp
      then show ?thesis using edgesFromI [OF ab(1,2), of ?g] ab(4) by simp
    qed
  qed
  have E'': "?E'' \<subseteq> conn (?E0 \<union> ?E' \<union> X \<union> ?A)"
  proof
    fix p assume "p \<in> ?E''"
    then obtain a b where ab: "a \<in> ?C" "b \<in> set (getNeighbors gg (fst a) (snd a))"
      "cellAt ?g b = cellAt ?g a" "p = (idxOf gg a, idxOf gg b)"
      by (cases p) (auto simp: edgesFrom_iff)
    have bC: "b \<in> ?C" by (rule neighbors_in_cells [OF ab(1,2)])
    have nb: "b \<noteq> a" by (rule neighbor_neq [OF ab(2)])
    have ba: "a \<in> set (getNeighbors gg (fst b) (snd b))" by (rule neighbors_sym [OF ab(1,2)])
    consider (an) "a = n" | (bn) "b = n" "a \<noteq> n" | (no) "a \<noteq> n" "b \<noteq> n" by blast
    then show "p \<in> conn (?E0 \<union> ?E' \<union> X \<union> ?A)"
    proof cases
      case an
      then have "cellAt ?g b = Some new" using ab(3) at [OF n] by simp
      with an ab(2) have "(idxOf gg n, idxOf gg b) \<in> ?A" by blast
      with an ab(4) show ?thesis by (auto intro: conn_edge)
    next
      case bn
      then have "cellAt ?g a = Some new" using ab(3) at [OF n] by simp
      with bn ba have "(idxOf gg n, idxOf gg a) \<in> ?A" by blast
      then have "(idxOf gg n, idxOf gg a) \<in> conn (?E0 \<union> ?E' \<union> X \<union> ?A)" by (auto intro: conn_edge)
      from conn_sym [OF this] bn ab(4) show ?thesis by simp
    next
      case no
      then have "cellAt g' b = cellAt g' a" using at [OF ab(1)] at [OF bC] ab(3) by simp
      then have "p \<in> ?E'" using edgesFromI [OF ab(1,2), of g'] ab(4) by simp
      then show ?thesis using conn_sub [of "?E0 \<union> ?E' \<union> X \<union> ?A"] by blast
    qed
  qed
  have "conn (?E0 \<union> ?E' \<union> X \<union> ?A) = conn (?E0 \<union> ?E'')"
  proof (rule conn_eqI)
    show "?E0 \<union> ?E' \<union> X \<union> ?A \<subseteq> conn (?E0 \<union> ?E'')"
      using A E' X conn_sub [of "?E0 \<union> ?E''"] by blast
    show "?E0 \<union> ?E'' \<subseteq> conn (?E0 \<union> ?E' \<union> X \<union> ?A)"
      using E'' conn_sub [of "?E0 \<union> ?E' \<union> X \<union> ?A"] by blast
  qed
  moreover have "?E0 \<union> ?E'' \<subseteq> {..<cellCount gg} \<times> {..<cellCount gg}"
    using edgesFrom_bounds [of ?C gg] by blast
  ultimately show ?thesis using r1 by (rule ufRep_cong [rotated])
qed

subsection \<open>The invariant of the loop of \<open>floodFill\<close>\<close>

definition fillInv ::
  "GameGrid \<Rightarrow> colour list list \<Rightarrow> int \<Rightarrow> int \<Rightarrow> nat \<times> nat \<Rightarrow> (nat \<times> nat) set \<Rightarrow> FillState \<Rightarrow> bool" where
  "fillInv gg g0 old new cur T st \<longleftrightarrow>
     shapeOf gg (fs_grid st) \<and>
     set (fs_visited st) \<subseteq> cells gg \<and> set (fs_queue st) \<subseteq> set (fs_visited st) \<and>
     (\<forall>a \<in> cells gg.
        (a \<in> set (fs_visited st) \<longrightarrow> cellAt g0 a = Some old \<and> cellAt (fs_grid st) a = Some new) \<and>
        (a \<notin> set (fs_visited st) \<longrightarrow> cellAt (fs_grid st) a = cellAt g0 a)) \<and>
     ufRep (cellCount gg) (fs_uf st)
       (edgesFrom gg g0 (cells gg) \<union> edgesFrom gg (fs_grid st) (cells gg)) \<and>
     (\<forall>a \<in> set (fs_visited st). a \<in> set (fs_queue st) \<or>
        (\<forall>b \<in> set (getNeighbors gg (fst a) (snd a)).
           (a = cur \<and> b \<in> T) \<or> cellAt (fs_grid st) b \<noteq> Some old))"

lemma fillVisit_inv:
  assumes inv: "fillInv gg g0 old new cur (insert n T) st" and ne: "old \<noteq> new"
    and cur: "cur \<in> set (fs_visited st)" and n: "n \<in> set (getNeighbors gg (fst cur) (snd cur))"
  shows "fillInv gg g0 old new cur T (fillVisit gg old new cur n st)"
proof -
  let ?g = "fs_grid st" and ?C = "cells gg" and ?V = "set (fs_visited st)" and ?Q = "set (fs_queue st)"
  from inv have sh: "shapeOf gg ?g" and VC: "?V \<subseteq> ?C" and QV: "?Q \<subseteq> ?V"
    and colV: "\<And>a. a \<in> ?C \<Longrightarrow> a \<in> ?V \<Longrightarrow> cellAt g0 a = Some old \<and> cellAt ?g a = Some new"
    and colN: "\<And>a. a \<in> ?C \<Longrightarrow> a \<notin> ?V \<Longrightarrow> cellAt ?g a = cellAt g0 a"
    and rep: "ufRep (cellCount gg) (fs_uf st) (edgesFrom gg g0 ?C \<union> edgesFrom gg ?g ?C)"
    and clo: "\<And>a b. a \<in> ?V \<Longrightarrow> a \<notin> ?Q \<Longrightarrow> b \<in> set (getNeighbors gg (fst a) (snd a)) \<Longrightarrow>
                (a = cur \<and> b \<in> insert n T) \<or> cellAt ?g b \<noteq> Some old"
    unfolding fillInv_def by blast+
  have curC: "cur \<in> ?C" using cur VC by blast
  have nC: "n \<in> ?C" by (rule neighbors_in_cells [OF curC n])
  have ib: "inBounds gg n" using nC by (simp add: cells_def)
  have ga: "gridAt ?g (snd n) (fst n) = cellAt ?g n" by (rule gridAt_cell)
  show ?thesis
  proof (cases "n \<notin> ?V \<and> cellAt ?g n = Some old")
    case False
    then have same: "fillVisit gg old new cur n st = st"
      using ib ga by (auto simp: fillVisit_def)
    have nn: "cellAt ?g n \<noteq> Some old"
    proof (cases "n \<in> ?V")
      case True
      with colV [OF nC] ne show ?thesis by simp
    next
      case nv: False
      with False show ?thesis by simp
    qed
    have "(a = cur \<and> b \<in> T) \<or> cellAt ?g b \<noteq> Some old"
      if "a \<in> ?V" "a \<notin> ?Q" "b \<in> set (getNeighbors gg (fst a) (snd a))" for a b
      using clo [OF that] nn by auto
    with sh VC QV colV colN rep show ?thesis
      unfolding same fillInv_def by blast
  next
    case True
    then have nV: "n \<notin> ?V" and nold: "cellAt ?g n = Some old" by auto
    let ?g' = "setCell ?g n new"
    let ?u1 = "uf_union (fs_uf st) (idx gg (fst cur) (snd cur)) (idx gg (fst n) (snd n))"
    let ?u2 = "unionCell gg ?g' n new ?u1"
    let ?st' = "\<lparr>fs_grid = ?g', fs_uf = ?u2, fs_queue = fs_queue st @ [n],
             fs_visited = fs_visited st @ [n]\<rparr>"
    have res: "fillVisit gg old new cur n st = ?st'"
      using nV nold ib ga by (simp add: fillVisit_def Let_def)
    have sh': "shapeOf gg ?g'" by (rule shapeOf_setCell [OF sh nC])
    have at: "cellAt ?g' b = (if b = n then Some new else cellAt ?g b)" if "b \<in> ?C" for b
      by (rule cellAt_setCell [OF sh nC that])
    have g0n: "cellAt g0 n = Some old" using colN [OF nC nV] nold by simp
    have curn: "cur \<noteq> n" using cur nV by auto
    have curnew: "cellAt ?g cur = Some new" using colV [OF curC cur] by simp
    have still: "\<forall>b \<in> ?C. cellAt ?g b = Some old \<longrightarrow> cellAt g0 b = Some old"
    proof (intro ballI impI)
      fix b assume b: "b \<in> ?C" "cellAt ?g b = Some old"
      show "cellAt g0 b = Some old"
      proof (cases "b \<in> ?V")
        case True
        with colV [OF b(1)] b(2) ne show ?thesis by simp
      next
        case False
        with colN [OF b(1)] b(2) show ?thesis by simp
      qed
    qed
    have r1: "ufRep (cellCount gg) ?u1
        (edgesFrom gg g0 ?C \<union> edgesFrom gg ?g ?C \<union> {(idxOf gg cur, idxOf gg n)})"
      using ufRep_union [OF rep idxOf_less [OF curC] idxOf_less [OF nC]]
      by (simp add: idxOf_def)
    have X: "{(idxOf gg cur, idxOf gg n)} \<subseteq> edgesFrom gg ?g' ?C"
    proof -
      have "cellAt ?g' n = cellAt ?g' cur" using at [OF nC] at [OF curC] curn curnew by simp
      from edgesFromI [OF curC n this] show ?thesis by simp
    qed
    have rep': "ufRep (cellCount gg) ?u2 (edgesFrom gg g0 ?C \<union> edgesFrom gg ?g' ?C)"
      by (rule recolor_rep [OF sh nC nold g0n _ still r1 X]) (use ne in simp)
    have col': "(a \<in> set (fs_visited st @ [n]) \<longrightarrow> cellAt g0 a = Some old \<and> cellAt ?g' a = Some new) \<and>
               (a \<notin> set (fs_visited st @ [n]) \<longrightarrow> cellAt ?g' a = cellAt g0 a)" if a: "a \<in> ?C" for a
    proof (cases "a = n")
      case True
      with g0n at [OF nC] show ?thesis by simp
    next
      case False
      with at [OF a] colV [OF a] colN [OF a] show ?thesis by auto
    qed
    have clo': "a \<in> set (fs_queue st @ [n]) \<or>
        (\<forall>b \<in> set (getNeighbors gg (fst a) (snd a)). (a = cur \<and> b \<in> T) \<or> cellAt ?g' b \<noteq> Some old)"
      if a: "a \<in> set (fs_visited st @ [n])" for a
    proof (cases "a = n \<or> a \<in> ?Q")
      case True
      then show ?thesis by auto
    next
      case False
      with a have aV: "a \<in> ?V" "a \<notin> ?Q" by auto
      have aC: "a \<in> ?C" using aV VC by blast
      have "(a = cur \<and> b \<in> T) \<or> cellAt ?g' b \<noteq> Some old"
        if b: "b \<in> set (getNeighbors gg (fst a) (snd a))" for b
      proof (cases "b = n")
        case True
        with at [OF nC] ne show ?thesis by simp
      next
        case bn: False
        have bC: "b \<in> ?C" by (rule neighbors_in_cells [OF aC b])
        from clo [OF aV b] bn at [OF bC] show ?thesis by auto
      qed
      then show ?thesis by blast
    qed
    show ?thesis
      unfolding res fillInv_def
    proof (intro conjI)
      show "shapeOf gg (fs_grid ?st')" using sh' by simp
      show "set (fs_visited ?st') \<subseteq> ?C" using VC nC by simp
      show "set (fs_queue ?st') \<subseteq> set (fs_visited ?st')" using QV by auto
      show "\<forall>a\<in>?C. (a \<in> set (fs_visited ?st') \<longrightarrow> cellAt g0 a = Some old \<and> cellAt (fs_grid ?st') a = Some new) \<and>
                (a \<notin> set (fs_visited ?st') \<longrightarrow> cellAt (fs_grid ?st') a = cellAt g0 a)"
        using col' by simp
      show "ufRep (cellCount gg) (fs_uf ?st')
              (edgesFrom gg g0 ?C \<union> edgesFrom gg (fs_grid ?st') ?C)"
        using rep' by simp
      show "\<forall>a\<in>set (fs_visited ?st'). a \<in> set (fs_queue ?st') \<or>
              (\<forall>b\<in>set (getNeighbors gg (fst a) (snd a)).
                  (a = cur \<and> b \<in> T) \<or> cellAt (fs_grid ?st') b \<noteq> Some old)"
        using clo' by simp
    qed
  qed
qed

lemma fillVisit_visited: "set (fs_visited st) \<subseteq> set (fs_visited (fillVisit gg old new cur n st))"
  by (auto simp: fillVisit_def Let_def)

lemma fold_fillVisit_inv:
  assumes "fillInv gg g0 old new cur (set ns) st" "old \<noteq> new" "cur \<in> set (fs_visited st)"
    "set ns \<subseteq> set (getNeighbors gg (fst cur) (snd cur))"
  shows "fillInv gg g0 old new cur {} (fold (fillVisit gg old new cur) ns st)"
  using assms(1,3,4)
proof (induction ns arbitrary: st)
  case Nil
  then show ?case by simp
next
  case (Cons n ns)
  from Cons.prems have inv: "fillInv gg g0 old new cur (insert n (set ns)) st"
    and n: "n \<in> set (getNeighbors gg (fst cur) (snd cur))" by auto
  from fillVisit_inv [OF inv assms(2) Cons.prems(2) n]
  have i1: "fillInv gg g0 old new cur (set ns) (fillVisit gg old new cur n st)" .
  have c1: "cur \<in> set (fs_visited (fillVisit gg old new cur n st))"
    using Cons.prems(2) fillVisit_visited by blast
  from Cons.prems have "set ns \<subseteq> set (getNeighbors gg (fst cur) (snd cur))" by simp
  from Cons.IH [OF i1 c1 this] show ?case by simp
qed

declare fillLoop.simps [simp del]

lemma fillInv_cur: "fillInv gg g0 old new c {} st \<Longrightarrow> fillInv gg g0 old new c' {} st"
  by (simp add: fillInv_def)

lemma fillLoop_inv:
  "fillInv gg g0 old new c0 {} st \<Longrightarrow> old \<noteq> new \<Longrightarrow>
     fillInv gg g0 old new c0 {} (fillLoop gg old new st) \<and> fs_queue (fillLoop gg old new st) = []"
proof (induction gg old new st arbitrary: c0 rule: fillLoop.induct)
  case (1 gg old new st)
  show ?case
  proof (cases "fs_queue st")
    case Nil
    with "1.prems" show ?thesis by (simp add: fillLoop.simps [of gg old new st])
  next
    case (Cons cur rest)
    let ?st1 = "st\<lparr>fs_queue := rest\<rparr>"
    let ?st2 = "fold (fillVisit gg old new cur) (getNeighbors gg (fst cur) (snd cur)) ?st1"
    from "1.prems"(1) Cons have curV: "cur \<in> set (fs_visited st)"
      unfolding fillInv_def by auto
    have i1: "fillInv gg g0 old new cur (set (getNeighbors gg (fst cur) (snd cur))) ?st1"
      using "1.prems"(1) Cons unfolding fillInv_def by auto
    have "fillInv gg g0 old new cur {} ?st2"
      by (rule fold_fillVisit_inv [OF i1 "1.prems"(2)]) (use curV in auto)
    from "1.IH" [OF Cons this "1.prems"(2)]
    have ih: "fillInv gg g0 old new cur {} (fillLoop gg old new ?st2)"
          "fs_queue (fillLoop gg old new ?st2) = []" by simp_all
    have e: "fillLoop gg old new st = fillLoop gg old new ?st2"
      using Cons by (simp add: fillLoop.simps [of gg old new st])
    from fillInv_cur [OF ih(1), of c0] ih(2) show ?thesis by (simp only: e)
  qed
qed

subsection \<open>After the call\<close>

lemma dims_update [simp]:
  "getNeighbors (gg\<lparr>grid := g, uf := u\<rparr>) = getNeighbors gg"
  "cells (gg\<lparr>grid := g, uf := u\<rparr>) = cells gg"
  "cellCount (gg\<lparr>grid := g, uf := u\<rparr>) = cellCount gg"
  "idxOf (gg\<lparr>grid := g, uf := u\<rparr>) = idxOf gg"
  "wfDims (gg\<lparr>grid := g, uf := u\<rparr>) = wfDims gg"
  "shapeOf (gg\<lparr>grid := g, uf := u\<rparr>) = shapeOf gg"
  by (auto simp: getNeighbors_def cells_def inBounds_def cellCount_def idxOf_def idx_def
      wfDims_def shapeOf_def fun_eq_iff Let_def)

lemma edgesFrom_update [simp]:
  "edgesFrom (gg\<lparr>grid := g, uf := u\<rparr>) = edgesFrom gg"
  by (simp add: edgesFrom_def fun_eq_iff)

lemma consistent_iff:
  "consistent gg \<longleftrightarrow>
     wfDims gg \<and> shapeOf gg (grid gg) \<and>
     ufRep (cellCount gg) (uf gg) (edgesFrom gg (grid gg) (cells gg))"
  using gridShape_shapeOf [of gg] by (auto simp: consistent_def)

lemma buildUnionFind_consistent:
  "wfDims gg \<Longrightarrow> gridShape gg \<Longrightarrow> noHoles gg \<Longrightarrow> uf gg = buildUnionFind gg \<Longrightarrow> consistent gg"
  using buildUnionFind_rep [of gg] by (simp add: consistent_def)

lemma getColorIndex_cell:
  assumes "shapeOf gg (grid gg)" "(r, c) \<in> cells gg"
  shows "cellAt (grid gg) (r, c) = Some (getColorIndex gg (int r) (int c))"
proof -
  from cellAt_Some [OF assms] obtain v where "cellAt (grid gg) (r, c) = Some v" by blast
  then show ?thesis by (simp add: getColorIndex_def cellAt_def)
qed

lemma floodFill_consistent:
  assumes con: "consistent gg" and start: "(startR, startC) \<in> cells gg"
  shows "\<exists>gg'. floodFill gg startR startC new = Inr gg' \<and> consistent gg' \<and>
           rows gg' = rows gg \<and> cols gg' = cols gg \<and> vside_rows gg' = vside_rows gg \<and>
           colorCount gg' = colorCount gg"
proof -
  let ?gz = "grid gg" and ?C = "cells gg" and ?s = "(startR, startC)"
  let ?old = "getColorIndex gg (int startR) (int startC)"
  from con have wd: "wfDims gg" and sh: "shapeOf gg ?gz"
    and rep: "ufRep (cellCount gg) (uf gg) (edgesFrom gg ?gz ?C)"
    by (auto simp: consistent_iff)
  have old: "cellAt ?gz ?s = Some ?old" by (rule getColorIndex_cell [OF sh start])
  show ?thesis
  proof (cases "?old = new")
    case True
    then have "floodFill gg startR startC new = Inr gg" by (simp add: floodFill_def)
    with con show ?thesis by simp
  next
    case ne: False
    from start sh have l: "startC < length ?gz" "startR < length (?gz ! startC)"
      by (auto simp: cells_iff shapeOf_def)
    let ?gs = "setCell ?gz ?s new"
    let ?u1 = "unionCell gg ?gs ?s new (uf gg)"
    let ?ini = "\<lparr>fs_grid = ?gs, fs_uf = ?u1, fs_queue = [?s], fs_visited = [?s]\<rparr>"
    let ?st = "fillLoop gg ?old new ?ini"
    have res: "floodFill gg startR startC new = Inr (gg\<lparr>grid := fs_grid ?st, uf := fs_uf ?st\<rparr>)"
      using ne l by (simp add: floodFill_def Let_def)
    have at: "cellAt ?gs b = (if b = ?s then Some new else cellAt ?gz b)" if "b \<in> ?C" for b
      by (rule cellAt_setCell [OF sh start that])
    have rep0: "ufRep (cellCount gg) (uf gg) (edgesFrom gg ?gz ?C \<union> edgesFrom gg ?gz ?C \<union> {})"
      using rep by simp
    have rep1: "ufRep (cellCount gg) ?u1 (edgesFrom gg ?gz ?C \<union> edgesFrom gg ?gs ?C)"
      by (rule recolor_rep [OF sh start old old _ _ rep0]) (use ne in simp_all)
    have inv0: "fillInv gg ?gz ?old new ?s {} ?ini"
      unfolding fillInv_def
    proof (intro conjI)
      show "shapeOf gg (fs_grid ?ini)" using shapeOf_setCell [OF sh start] by simp
      show "set (fs_visited ?ini) \<subseteq> ?C" using start by simp
      show "set (fs_queue ?ini) \<subseteq> set (fs_visited ?ini)" by simp
      show "\<forall>a\<in>?C. (a \<in> set (fs_visited ?ini) \<longrightarrow> cellAt ?gz a = Some ?old \<and> cellAt (fs_grid ?ini) a = Some new) \<and>
                (a \<notin> set (fs_visited ?ini) \<longrightarrow> cellAt (fs_grid ?ini) a = cellAt ?gz a)"
        using at old by simp
      show "ufRep (cellCount gg) (fs_uf ?ini)
              (edgesFrom gg ?gz ?C \<union> edgesFrom gg (fs_grid ?ini) ?C)"
        using rep1 by simp
      show "\<forall>a\<in>set (fs_visited ?ini). a \<in> set (fs_queue ?ini) \<or>
              (\<forall>b\<in>set (getNeighbors gg (fst a) (snd a)).
                  (a = ?s \<and> b \<in> {}) \<or> cellAt (fs_grid ?ini) b \<noteq> Some ?old)"
        by simp
    qed
    from fillLoop_inv [OF inv0 ne] have inv: "fillInv gg ?gz ?old new ?s {} ?st"
      and qe: "fs_queue ?st = []" by auto
    let ?gf = "fs_grid ?st" and ?V = "set (fs_visited ?st)"
    from inv have shf: "shapeOf gg ?gf" and VC: "?V \<subseteq> ?C"
      and colV: "\<And>a. a \<in> ?C \<Longrightarrow> a \<in> ?V \<Longrightarrow> cellAt ?gz a = Some ?old \<and> cellAt ?gf a = Some new"
      and colN: "\<And>a. a \<in> ?C \<Longrightarrow> a \<notin> ?V \<Longrightarrow> cellAt ?gf a = cellAt ?gz a"
      and repf: "ufRep (cellCount gg) (fs_uf ?st) (edgesFrom gg ?gz ?C \<union> edgesFrom gg ?gf ?C)"
      and clo0: "\<And>a b. a \<in> ?V \<Longrightarrow> a \<notin> set (fs_queue ?st) \<Longrightarrow>
                  b \<in> set (getNeighbors gg (fst a) (snd a)) \<Longrightarrow>
                  (a = ?s \<and> b \<in> {}) \<or> cellAt ?gf b \<noteq> Some ?old"
      unfolding fillInv_def by blast+
    have clo: "cellAt ?gf b \<noteq> Some ?old" if "a \<in> ?V" "b \<in> set (getNeighbors gg (fst a) (snd a))" for a b
      using clo0 [OF that(1) _ that(2)] qe by simp
    have sub: "edgesFrom gg ?gz ?C \<subseteq> edgesFrom gg ?gf ?C"
    proof
      fix p assume "p \<in> edgesFrom gg ?gz ?C"
      then obtain a b where ab: "a \<in> ?C" "b \<in> set (getNeighbors gg (fst a) (snd a))"
        "cellAt ?gz b = cellAt ?gz a" "p = (idxOf gg a, idxOf gg b)"
        by (cases p) (auto simp: edgesFrom_iff)
      have bC: "b \<in> ?C" by (rule neighbors_in_cells [OF ab(1,2)])
      have ba: "a \<in> set (getNeighbors gg (fst b) (snd b))" by (rule neighbors_sym [OF ab(1,2)])
      have "cellAt ?gf b = cellAt ?gf a"
      proof (cases "a \<in> ?V")
        case True
        then have a0: "cellAt ?gz a = Some ?old" "cellAt ?gf a = Some new" using colV [OF ab(1)] by auto
        have "b \<in> ?V"
        proof (rule ccontr)
          assume "b \<notin> ?V"
          then have "cellAt ?gf b = Some ?old" using colN [OF bC] ab(3) a0 by simp
          with clo [OF True ab(2)] show False by simp
        qed
        then show ?thesis using colV [OF bC] a0 by simp
      next
        case False
        then have a0: "cellAt ?gf a = cellAt ?gz a" using colN [OF ab(1)] by simp
        have "b \<notin> ?V"
        proof
          assume bV: "b \<in> ?V"
          then have "cellAt ?gz b = Some ?old" using colV [OF bC] by simp
          then have "cellAt ?gf a = Some ?old" using a0 ab(3) by simp
          with clo [OF bV ba] show False by simp
        qed
        then show ?thesis using colN [OF bC] a0 ab(3) by simp
      qed
      from edgesFromI [OF ab(1,2) this] ab(4) show "p \<in> edgesFrom gg ?gf ?C" by simp
    qed
    then have "edgesFrom gg ?gz ?C \<union> edgesFrom gg ?gf ?C = edgesFrom gg ?gf ?C" by blast
    with repf have "ufRep (cellCount gg) (fs_uf ?st) (edgesFrom gg ?gf ?C)" by simp
    with wd shf have "consistent (gg\<lparr>grid := fs_grid ?st, uf := fs_uf ?st\<rparr>)"
      by (simp add: consistent_iff)
    with res show ?thesis by simp
  qed
qed

lemma card_image_kernel:
  assumes "\<forall>x\<in>A. \<forall>y\<in>A. f x = f y \<longleftrightarrow> g x = g y"
  shows "card (f ` A) = card (g ` A)"
proof -
  let ?h = "\<lambda>y. g (inv_into A f y)"
  have inv: "inv_into A f y \<in> A \<and> f (inv_into A f y) = y" if "y \<in> f ` A" for y
    using that by (simp add: inv_into_into f_inv_into_f)
  have hf: "?h (f x) = g x" if "x \<in> A" for x
  proof -
    have "f x \<in> f ` A" using that by simp
    from inv [OF this] that assms show ?thesis by blast
  qed
  have "inj_on ?h (f ` A)"
  proof (rule inj_onI)
    fix y1 y2 assume y: "y1 \<in> f ` A" "y2 \<in> f ` A" "?h y1 = ?h y2"
    from inv [OF y(1)] inv [OF y(2)] y(3) assms show "y1 = y2" by metis
  qed
  then have "card (?h ` (f ` A)) = card (f ` A)" by (rule card_image)
  moreover have "?h ` (f ` A) = g ` A" using hf by (auto simp: image_iff)
  ultimately show ?thesis by simp
qed

lemma count_as_image: "ufInv n u \<Longrightarrow> count u = card (uf_find u ` {..<n})"
proof -
  assume inv: "ufInv n u"
  then have len: "length (parent u) = n" and c: "count u = card (set (parent u))"
    by (auto simp: ufInv_def)
  have "set (parent u) = (\<lambda>i. parent u ! i) ` {..<n}"
    using len by (auto simp: set_conv_nth)
  also have "\<dots> = uf_find u ` {..<n}"
    using len by (auto simp: uf_find_def)
  finally show ?thesis using c by simp
qed

lemma ufRep_same_count:
  assumes "ufRep n u E" "ufRep n u' E"
  shows "count u = count u' \<and>
         (\<forall>x<n. \<forall>y<n. uf_find u x = uf_find u y \<longleftrightarrow> uf_find u' x = uf_find u' y)"
proof -
  from assms have k: "\<forall>x\<in>{..<n}. \<forall>y\<in>{..<n}. uf_find u x = uf_find u y \<longleftrightarrow> uf_find u' x = uf_find u' y"
    by (simp add: ufRep_def)
  from card_image_kernel [OF k] assms show ?thesis
    using count_as_image [of n u] count_as_image [of n u'] k by (simp add: ufRep_def)
qed

lemma floodFills_consistent:
  assumes "consistent gg" "\<forall>(r, c, k) \<in> set calls. int r < rows gg \<and> int c < cols gg"
  shows "\<exists>gg'. floodFills gg calls = Inr gg' \<and> consistent gg' \<and>
           rows gg' = rows gg \<and> cols gg' = cols gg"
  using assms
proof (induction calls arbitrary: gg)
  case Nil
  then show ?case by simp
next
  case (Cons call calls)
  obtain r c k where call: "call = (r, c, k)" by (cases call)
  with Cons.prems have "(r, c) \<in> cells gg" by (simp add: cells_def inBounds_def)
  from floodFill_consistent [OF Cons.prems(1) this, of k] obtain gg1 where
    g1: "floodFill gg r c k = Inr gg1" "consistent gg1" "rows gg1 = rows gg" "cols gg1 = cols gg"
    by blast
  from Cons.prems(2) g1 have "\<forall>(r, c, k) \<in> set calls. int r < rows gg1 \<and> int c < cols gg1"
    by simp
  from Cons.IH [OF g1(2) this] g1 call show ?case by simp
qed

lemma consistent_rebuild:
  assumes "consistent gg"
  shows "getRegionCount gg = count (buildUnionFind gg) \<and>
         (\<forall>a \<in> cells gg. \<forall>b \<in> cells gg.
            uf_find (uf gg) (idxOf gg a) = uf_find (uf gg) (idxOf gg b) \<longleftrightarrow>
            uf_find (buildUnionFind gg) (idxOf gg a) = uf_find (buildUnionFind gg) (idxOf gg b))"
proof -
  from assms have r1: "ufRep (cellCount gg) (uf gg) (edgesFrom gg (grid gg) (cells gg))"
    and wd: "wfDims gg" and sh: "gridShape gg" and nh: "noHoles gg" by (auto simp: consistent_def)
  from buildUnionFind_rep [OF wd sh nh] ufRep_same_count [OF r1] idxOf_less [of _ gg]
  show ?thesis by (simp add: getRegionCount_def)
qed

section \<open>The labelling of \<open>buildGraph\<close> without its exceptions\<close>

text \<open>
  Step 1 of \<open>buildGraph\<close> throws where it reads a column the array does not have. The
  functions of this section are the same loops with that read giving \<open>undefined\<close> instead;
  they are total, and where step 1 throws nothing it computes what they compute. The
  invariants of the labelling are proved of them.
\<close>

definition regionVisitT ::
  "GameGrid \<Rightarrow> colour \<Rightarrow> nat \<Rightarrow> nat \<times> nat \<Rightarrow> int list \<times> nat \<times> (nat \<times> nat) list
     \<Rightarrow> int list \<times> nat \<times> (nat \<times> nat) list" where
  "regionVisitT gg col currentId n st =
     (case st of (rmap, sz, queue) \<Rightarrow>
        if \<not> inBounds gg n then st
        else (let nIdx = getIdx gg (fst n) (snd n)
              in if cellAt (grid gg) n = col then
                   (if nIdx < length rmap \<and> rmap ! nIdx = -1
                    then (rmap[nIdx := int currentId], sz + 1, queue @ [n])
                    else st)
                 else st))"

lemma regionVisitT_measure:
  "regionVisitT gg col currentId n (rmap, sz, queue) = (rmap', sz', queue') \<Longrightarrow>
     2 * count_free rmap' + length queue' \<le> 2 * count_free rmap + length queue"
  using count_free_update [of "getIdx gg (fst n) (snd n)" rmap "int currentId"]
  by (auto simp: regionVisitT_def Let_def split: if_splits)

lemma fold_regionVisitT_measure:
  "fold (regionVisitT gg col currentId) ns (rmap, sz, queue) = (rmap', sz', queue') \<Longrightarrow>
     2 * count_free rmap' + length queue' \<le> 2 * count_free rmap + length queue"
proof (induction ns arbitrary: rmap sz queue)
  case Nil
  then show ?case by simp
next
  case (Cons n ns)
  obtain rmap1 sz1 queue1
    where s1: "regionVisitT gg col currentId n (rmap, sz, queue) = (rmap1, sz1, queue1)"
    by (cases "regionVisitT gg col currentId n (rmap, sz, queue)") auto
  from Cons.prems s1
  have "fold (regionVisitT gg col currentId) ns (rmap1, sz1, queue1) = (rmap', sz', queue')"
    by simp
  then have "2 * count_free rmap' + length queue' \<le> 2 * count_free rmap1 + length queue1"
    by (rule Cons.IH)
  with regionVisitT_measure [OF s1] show ?case by simp
qed

function regionBfsT ::
  "GameGrid \<Rightarrow> colour \<Rightarrow> nat \<Rightarrow> int list \<times> nat \<times> (nat \<times> nat) list \<Rightarrow> int list \<times> nat" where
  "regionBfsT gg col currentId (rmap, sz, []) = (rmap, sz)"
| "regionBfsT gg col currentId (rmap, sz, cur # rest) =
     regionBfsT gg col currentId
       (fold (regionVisitT gg col currentId) (getNeighbors gg (fst cur) (snd cur))
             (rmap, sz, rest))"
  by pat_completeness auto
termination
proof (relation "measure (\<lambda>(gg, col, cid, rmap, sz, queue). 2 * count_free rmap + length queue)")
  show "wf (measure (\<lambda>(gg, col, cid, rmap, sz, queue). 2 * count_free rmap + length queue))"
    by simp
next
  fix gg :: GameGrid and col :: colour and currentId :: nat and rmap :: "int list" and sz :: nat
    and cur :: "nat \<times> nat" and rest :: "(nat \<times> nat) list"
  obtain rmap' sz' queue'
    where f: "fold (regionVisitT gg col currentId) (getNeighbors gg (fst cur) (snd cur))
                (rmap, sz, rest) = (rmap', sz', queue')"
    by (cases "fold (regionVisitT gg col currentId) (getNeighbors gg (fst cur) (snd cur))
                (rmap, sz, rest)") auto
  from fold_regionVisitT_measure [OF f]
  show "((gg, col, currentId,
      fold (regionVisitT gg col currentId) (getNeighbors gg (fst cur) (snd cur)) (rmap, sz, rest)),
      (gg, col, currentId, rmap, sz, cur # rest))
      \<in> measure (\<lambda>(gg, col, cid, rmap, sz, queue). 2 * count_free rmap + length queue)"
    by (simp add: f)
qed

definition labelCellT :: "GameGrid \<Rightarrow> nat \<times> nat \<Rightarrow> BuildState \<Rightarrow> BuildState" where
  "labelCellT gg cell bs =
     (let r = fst cell; c = snd cell; i = getIdx gg r c
      in if regionMap bs ! i \<noteq> -1 then bs
         else
           (let col = cellAt (grid gg) cell;
                currentId = regionIdCounter bs;
                (rmap, sz) = regionBfsT gg col currentId
                               ((regionMap bs)[i := int currentId], 1, [(r, c)])
            in \<lparr>regionMap = rmap,
                regionIdCounter = currentId + 1,
                bs_nodes = bs_nodes bs @
                  [(int currentId,
                    \<lparr>id_node = int currentId, color = col, size_node = sz, neighbors = []\<rparr>)],
                bs_idToCoord = bs_idToCoord bs @ [(int currentId, (r, c))]\<rparr>))"

definition labelRegionsT :: "GameGrid \<Rightarrow> BuildState" where
  "labelRegionsT gg =
     fold (labelCellT gg) (allCells gg)
       \<lparr>regionMap = replicate (nat (rows gg * cols gg)) (-1), regionIdCounter = 0,
        bs_nodes = [], bs_idToCoord = []\<rparr>"

lemma readCell_Inr: "readCell g c r = Inr v \<Longrightarrow> v = gridAt g c r"
  by (auto simp: readCell_def gridAt_def split: if_splits)

lemma readCell_ok: "c < length g \<Longrightarrow> readCell g c r = Inr (gridAt g c r)"
  by (simp add: readCell_def gridAt_def)

lemma foldE_fold:
  assumes "\<And>x s s'. f x s = Inr s' \<Longrightarrow> s' = g x s"
  shows "foldE f xs s = Inr s' \<Longrightarrow> s' = fold g xs s"
proof (induction xs arbitrary: s)
  case Nil
  then show ?case by simp
next
  case (Cons x xs)
  from Cons.prems obtain s1 where s1: "f x s = Inr s1" "foldE f xs s1 = Inr s'"
    by (cases "f x s") auto
  from assms [OF s1(1)] Cons.IH [OF s1(2)] show ?case by simp
qed

lemma foldE_ok:
  assumes "\<And>x s. x \<in> set xs \<Longrightarrow> f x s = Inr (g x s)"
  shows "foldE f xs s = Inr (fold g xs s)"
  using assms
proof (induction xs arbitrary: s)
  case Nil
  then show ?case by simp
next
  case (Cons x xs)
  then show ?case by simp
qed

lemma regionVisit_total:
  "regionVisit gg col k n st = Inr st' \<Longrightarrow> st' = regionVisitT gg col k n st"
  by (cases st)
     (auto simp: regionVisit_def regionVisitT_def Let_def cellAt_def
           dest!: readCell_Inr split: if_splits sum.splits)

lemma regionBfs_total:
  "regionBfs gg col k st = Inr res \<Longrightarrow> res = regionBfsT gg col k st"
proof (induction gg col k st rule: regionBfs.induct)
  case (1 gg col currentId rmap sz)
  then show ?case by simp
next
  case (2 gg col currentId rmap sz cur rest)
  from "2.prems" obtain st1 where
    f: "foldE (regionVisit gg col currentId) (getNeighbors gg (fst cur) (snd cur)) (rmap, sz, rest) = Inr st1"
    and r: "regionBfs gg col currentId st1 = Inr res"
    by (auto split: sum.splits)
  from foldE_fold [of "regionVisit gg col currentId" "regionVisitT gg col currentId", OF regionVisit_total f]
  have e: "st1 = fold (regionVisitT gg col currentId) (getNeighbors gg (fst cur) (snd cur)) (rmap, sz, rest)" .
  from "2.IH" [OF f r] e show ?case by simp
qed

lemma labelCell_total:
  assumes "labelCell gg cell bs = Inr bs'"
  shows "bs' = labelCellT gg cell bs"
proof (cases "regionMap bs ! getIdx gg (fst cell) (snd cell) \<noteq> -1")
  case True
  with assms show ?thesis by (simp add: labelCell_def labelCellT_def Let_def)
next
  case False
  let ?i = "getIdx gg (fst cell) (snd cell)" and ?k = "regionIdCounter bs"
  from assms False obtain col where c: "readCell (grid gg) (snd cell) (fst cell) = Inr col"
    by (auto simp: labelCell_def Let_def split: sum.splits)
  from readCell_Inr [OF c] have col: "col = cellAt (grid gg) cell" by (simp add: cellAt_def)
  from assms False c obtain res where
    b: "regionBfs gg col ?k ((regionMap bs)[?i := int ?k], 1, [(fst cell, snd cell)]) = Inr res"
    by (auto simp: labelCell_def Let_def split: sum.splits)
  from regionBfs_total [OF b]
  have r: "res = regionBfsT gg col ?k ((regionMap bs)[?i := int ?k], 1, [(fst cell, snd cell)])" .
  from assms False c b have "bs' = (case res of (rmap, sz) \<Rightarrow>
      \<lparr>regionMap = rmap, regionIdCounter = ?k + 1,
        bs_nodes = bs_nodes bs @
          [(int ?k, \<lparr>id_node = int ?k, color = col, size_node = sz, neighbors = []\<rparr>)],
        bs_idToCoord = bs_idToCoord bs @ [(int ?k, (fst cell, snd cell))]\<rparr>)"
    by (simp add: labelCell_def Let_def split: prod.splits)
  with False r col show ?thesis by (simp add: labelCellT_def Let_def)
qed

lemma labelRegions_total:
  assumes "labelRegions gg = Inr bs"
  shows "bs = labelRegionsT gg"
proof -
  from assms have "foldE (labelCell gg) (allCells gg)
       \<lparr>regionMap = replicate (nat (rows gg * cols gg)) (-1), regionIdCounter = 0,
        bs_nodes = [], bs_idToCoord = []\<rparr> = Inr bs"
    by (simp add: labelRegions_def split: if_splits)
  from foldE_fold [of "labelCell gg" "labelCellT gg", OF labelCell_total this]
  show ?thesis by (simp add: labelRegionsT_def)
qed

definition columnsExist :: "GameGrid \<Rightarrow> bool" where
  "columnsExist gg \<longleftrightarrow> nat (cols gg) \<le> length (grid gg)"

lemma regionVisit_ok:
  "columnsExist gg \<Longrightarrow> regionVisit gg col k n st = Inr (regionVisitT gg col k n st)"
  by (cases st)
     (auto simp: regionVisit_def regionVisitT_def Let_def cellAt_def columnsExist_def
           inBounds_def readCell_ok)

lemma regionBfs_ok:
  "columnsExist gg \<Longrightarrow> regionBfs gg col k st = Inr (regionBfsT gg col k st)"
proof (induction gg col k st rule: regionBfsT.induct)
  case (1 gg col currentId rmap sz)
  then show ?case by simp
next
  case (2 gg col currentId rmap sz cur rest)
  have "foldE (regionVisit gg col currentId) (getNeighbors gg (fst cur) (snd cur)) (rmap, sz, rest)
        = Inr (fold (regionVisitT gg col currentId) (getNeighbors gg (fst cur) (snd cur)) (rmap, sz, rest))"
    by (rule foldE_ok) (rule regionVisit_ok [OF "2.prems"])
  with "2.IH" [OF "2.prems"] show ?case by simp
qed

lemma labelCell_ok:
  assumes "columnsExist gg" "inBounds gg cell"
  shows "labelCell gg cell bs = Inr (labelCellT gg cell bs)"
proof -
  from assms have "snd cell < length (grid gg)" by (auto simp: columnsExist_def inBounds_def)
  then have "readCell (grid gg) (snd cell) (fst cell) = Inr (cellAt (grid gg) cell)"
    by (simp add: readCell_ok cellAt_def)
  then show ?thesis
    by (simp add: labelCell_def labelCellT_def Let_def regionBfs_ok [OF assms(1)]
          del: regionBfs.simps regionBfsT.simps split: prod.splits)
qed

lemma allCells_inBounds: "cell \<in> set (allCells gg) \<Longrightarrow> inBounds gg cell"
  by (auto simp: allCells_def inBounds_def)

lemma labelRegions_ok:
  assumes "columnsExist gg" "0 \<le> rows gg * cols gg"
  shows "labelRegions gg = Inr (labelRegionsT gg)"
  unfolding labelRegions_def labelRegionsT_def using assms(2)
  by (simp add: foldE_ok [of "allCells gg" "labelCell gg" "labelCellT gg",
        OF labelCell_ok [OF assms(1) allCells_inBounds]])

section \<open>The regions \<open>buildGraph\<close> labels\<close>

text \<open>
  Step 1 gives every cell the number of its region: the cells of one number are connected
  by neighbouring cells of one colour, and neighbouring cells of one colour have one
  number. The colour of a cell is \<open>cellAt\<close>, \<open>undefined\<close> included.
\<close>

definition lab :: "GameGrid \<Rightarrow> int list \<Rightarrow> nat \<times> nat \<Rightarrow> int" where
  "lab gg rmap a = rmap ! getIdx gg (fst a) (snd a)"

definition mapSize :: "GameGrid \<Rightarrow> nat" where
  "mapSize gg = nat (rows gg * cols gg)"

lemma getIdx_less: "a \<in> cells gg \<Longrightarrow> getIdx gg (fst a) (snd a) < mapSize gg"
proof -
  assume a: "a \<in> cells gg"
  then have r: "fst a < nat (rows gg)" and c: "snd a < nat (cols gg)" by (auto simp: cells_iff)
  then have pos: "0 < rows gg" "0 < cols gg" by auto
  have "snd a * nat (rows gg) + fst a < snd a * nat (rows gg) + nat (rows gg)" using r by simp
  also have "\<dots> = (snd a + 1) * nat (rows gg)" by simp
  also have "\<dots> \<le> nat (cols gg) * nat (rows gg)" using c by (intro mult_le_mono1) simp
  also have "\<dots> = mapSize gg" using pos by (simp add: mapSize_def nat_mult_distrib mult.commute)
  finally show ?thesis by (simp add: getIdx_def)
qed

lemma getIdx_inj:
  "a \<in> cells gg \<Longrightarrow> b \<in> cells gg \<Longrightarrow> getIdx gg (fst a) (snd a) = getIdx gg (fst b) (snd b) \<Longrightarrow> a = b"
proof -
  assume a: "a \<in> cells gg" and b: "b \<in> cells gg"
    and e: "getIdx gg (fst a) (snd a) = getIdx gg (fst b) (snd b)"
  let ?R = "nat (rows gg)"
  from a b have ra: "fst a < ?R" and rb: "fst b < ?R" by (auto simp: cells_iff)
  from e have e': "snd a * ?R + fst a = snd b * ?R + fst b" by (simp add: getIdx_def)
  then have "(snd a * ?R + fst a) div ?R = (snd b * ?R + fst b) div ?R" by simp
  with ra rb have "snd a = snd b" by simp
  with e' have "fst a = fst b" by simp
  with \<open>snd a = snd b\<close> show "a = b" by (simp add: prod_eq_iff)
qed

lemma lab_update:
  assumes "length rmap = mapSize gg" "n \<in> cells gg" "a \<in> cells gg"
  shows "lab gg (rmap[getIdx gg (fst n) (snd n) := v]) a = (if a = n then v else lab gg rmap a)"
proof (cases "a = n")
  case True
  then show ?thesis using assms getIdx_less [OF assms(2)] by (simp add: lab_def)
next
  case False
  with getIdx_inj [OF assms(3,2)] have "getIdx gg (fst a) (snd a) \<noteq> getIdx gg (fst n) (snd n)"
    by blast
  with False show ?thesis by (simp add: lab_def)
qed

text \<open>The regions labelled before the current one: numbered below \<open>k\<close> and closed.\<close>

definition oldInv :: "GameGrid \<Rightarrow> nat \<Rightarrow> int list \<Rightarrow> bool" where
  "oldInv gg k old \<longleftrightarrow>
     (\<forall>a \<in> cells gg. lab gg old a \<noteq> -1 \<longrightarrow>
        0 \<le> lab gg old a \<and> lab gg old a < int k \<and>
        (\<forall>b \<in> set (getNeighbors gg (fst a) (snd a)).
           cellAt (grid gg) b = cellAt (grid gg) a \<longrightarrow> lab gg old b = lab gg old a))"

definition bfsInv ::
  "GameGrid \<Rightarrow> nat \<Rightarrow> colour \<Rightarrow> nat \<times> nat \<Rightarrow> int list \<Rightarrow> nat \<times> nat \<Rightarrow> (nat \<times> nat) set
     \<Rightarrow> int list \<times> nat \<times> (nat \<times> nat) list \<Rightarrow> bool" where
  "bfsInv gg k colr s old cur T st \<longleftrightarrow>
     (case st of (rmap, sz, queue) \<Rightarrow>
        length rmap = mapSize gg \<and>
        (\<forall>a \<in> cells gg. lab gg old a \<noteq> -1 \<longrightarrow> lab gg rmap a = lab gg old a) \<and>
        (\<forall>a \<in> cells gg. lab gg old a = -1 \<longrightarrow> lab gg rmap a = -1 \<or> lab gg rmap a = int k) \<and>
        (\<forall>a \<in> cells gg. lab gg rmap a = int k \<longrightarrow>
           cellAt (grid gg) a = colr \<and>
           (idxOf gg s, idxOf gg a) \<in> conn (edgesFrom gg (grid gg) (cells gg))) \<and>
        set queue \<subseteq> {a \<in> cells gg. lab gg rmap a = int k} \<and>
        (\<forall>a \<in> cells gg. lab gg rmap a = int k \<longrightarrow> a \<in> set queue \<or>
           (\<forall>b \<in> set (getNeighbors gg (fst a) (snd a)).
              (a = cur \<and> b \<in> T) \<or> (cellAt (grid gg) b = colr \<longrightarrow> lab gg rmap b = int k))) \<and>
        s \<in> cells gg \<and> lab gg rmap s = int k)"

lemma regionVisit_inv:
  assumes inv: "bfsInv gg k colr s old cur (insert n T) (rmap, sz, queue)"
    and old: "oldInv gg k old"
    and cur: "cur \<in> cells gg" "lab gg rmap cur = int k"
    and n: "n \<in> set (getNeighbors gg (fst cur) (snd cur))"
  shows "bfsInv gg k colr s old cur T (regionVisitT gg colr k n (rmap, sz, queue))"
proof -
  let ?C = "cells gg" and ?g = "grid gg" and ?E = "edgesFrom gg (grid gg) (cells gg)"
  from inv have len: "length rmap = mapSize gg"
    and frame: "\<And>a. a \<in> ?C \<Longrightarrow> lab gg old a \<noteq> -1 \<Longrightarrow> lab gg rmap a = lab gg old a"
    and fresh: "\<And>a. a \<in> ?C \<Longrightarrow> lab gg old a = -1 \<Longrightarrow> lab gg rmap a = -1 \<or> lab gg rmap a = int k"
    and mine: "\<And>a. a \<in> ?C \<Longrightarrow> lab gg rmap a = int k \<Longrightarrow>
                 cellAt ?g a = colr \<and> (idxOf gg s, idxOf gg a) \<in> conn ?E"
    and qsub: "set queue \<subseteq> {a \<in> ?C. lab gg rmap a = int k}"
    and clo: "\<And>a b. a \<in> ?C \<Longrightarrow> lab gg rmap a = int k \<Longrightarrow> a \<notin> set queue \<Longrightarrow>
                 b \<in> set (getNeighbors gg (fst a) (snd a)) \<Longrightarrow>
                 (a = cur \<and> b \<in> insert n T) \<or> (cellAt ?g b = colr \<longrightarrow> lab gg rmap b = int k)"
    and seed: "s \<in> ?C" "lab gg rmap s = int k"
    unfolding bfsInv_def by (simp_all, blast+)
  have nC: "n \<in> ?C" by (rule neighbors_in_cells [OF cur(1) n])
  have ib: "inBounds gg n" using nC by (simp add: cells_def)
  have nlt: "getIdx gg (fst n) (snd n) < length rmap" using getIdx_less [OF nC] len by simp
  have curcol: "cellAt ?g cur = colr" using mine [OF cur] by simp
  have ncur: "cur \<in> set (getNeighbors gg (fst n) (snd n))" by (rule neighbors_sym [OF cur(1) n])
  have lbd: "cellAt ?g n = colr \<longrightarrow> lab gg rmap n = int k" if "lab gg rmap n \<noteq> -1"
  proof
    assume c: "cellAt ?g n = colr"
    show "lab gg rmap n = int k"
    proof (cases "lab gg old n = -1")
      case True
      from fresh [OF nC True] that show ?thesis by simp
    next
      case False
      from old nC False ncur c curcol have "lab gg old cur = lab gg old n"
        unfolding oldInv_def by blast
      with False have "lab gg old cur \<noteq> -1" by simp
      from frame [OF cur(1) this] old cur(1) this cur(2) show ?thesis
        unfolding oldInv_def by fastforce
    qed
  qed
  show ?thesis
  proof (cases "cellAt ?g n = colr \<and> lab gg rmap n = -1")
    case False
    then have same: "regionVisitT gg colr k n (rmap, sz, queue) = (rmap, sz, queue)"
      using ib by (auto simp: regionVisitT_def Let_def lab_def cellAt_def)
    have nn: "cellAt ?g n = colr \<longrightarrow> lab gg rmap n = int k"
      using False lbd by blast
    have "(a = cur \<and> b \<in> T) \<or> (cellAt ?g b = colr \<longrightarrow> lab gg rmap b = int k)"
      if "a \<in> ?C" "lab gg rmap a = int k" "a \<notin> set queue"
        "b \<in> set (getNeighbors gg (fst a) (snd a))" for a b
      using clo [OF that] nn by auto
    with len frame fresh mine qsub seed show ?thesis
      unfolding same bfsInv_def by (simp, blast)
  next
    case True
    then have ncol: "cellAt ?g n = colr" and nfree: "lab gg rmap n = -1" by auto
    let ?rmap' = "rmap[getIdx gg (fst n) (snd n) := int k]"
    have res: "regionVisitT gg colr k n (rmap, sz, queue) = (?rmap', sz + 1, queue @ [n])"
      using ib ncol nfree nlt by (simp add: regionVisitT_def Let_def lab_def cellAt_def)
    have lu: "lab gg ?rmap' a = (if a = n then int k else lab gg rmap a)" if "a \<in> ?C" for a
      by (rule lab_update [OF len nC that])
    have nold: "lab gg old n = -1"
    proof (rule ccontr)
      assume "lab gg old n \<noteq> -1"
      from frame [OF nC this] this nfree show False by simp
    qed
    have edge: "(idxOf gg cur, idxOf gg n) \<in> ?E"
      using edgesFromI [OF cur(1) n, of ?g] ncol curcol by simp
    have conn_n: "(idxOf gg s, idxOf gg n) \<in> conn ?E"
      using mine [OF cur] conn_edge [OF edge] conn_trans by blast
    show ?thesis
      unfolding res bfsInv_def
    proof (simp only: prod.case, intro conjI ballI impI)
      show "length ?rmap' = mapSize gg" using len by simp
    next
      fix a assume "a \<in> ?C" "lab gg old a \<noteq> -1"
      then show "lab gg ?rmap' a = lab gg old a" using lu frame nold by auto
    next
      fix a assume "a \<in> ?C" "lab gg old a = -1"
      then show "lab gg ?rmap' a = -1 \<or> lab gg ?rmap' a = int k" using lu fresh by auto
    next
      fix a assume a: "a \<in> ?C" "lab gg ?rmap' a = int k"
      show "cellAt ?g a = colr"
        using a lu [OF a(1)] mine [OF a(1)] ncol by (cases "a = n") auto
      show "(idxOf gg s, idxOf gg a) \<in> conn ?E"
        using a lu [OF a(1)] mine [OF a(1)] conn_n by (cases "a = n") auto
    next
      show "set (queue @ [n]) \<subseteq> {a \<in> ?C. lab gg ?rmap' a = int k}"
        using qsub nC lu by auto
    next
      fix a assume a: "a \<in> ?C" "lab gg ?rmap' a = int k"
      show "a \<in> set (queue @ [n]) \<or>
         (\<forall>b\<in>set (getNeighbors gg (fst a) (snd a)).
             (a = cur \<and> b \<in> T) \<or> (cellAt ?g b = colr \<longrightarrow> lab gg ?rmap' b = int k))"
      proof (cases "a = n \<or> a \<in> set queue")
        case True
        then show ?thesis by auto
      next
        case False
        with a lu [OF a(1)] have ak: "lab gg rmap a = int k" by simp
        have "(a = cur \<and> b \<in> T) \<or> (cellAt ?g b = colr \<longrightarrow> lab gg ?rmap' b = int k)"
          if b: "b \<in> set (getNeighbors gg (fst a) (snd a))" for b
        proof -
          have bC: "b \<in> ?C" by (rule neighbors_in_cells [OF a(1) b])
          from clo [OF a(1) ak _ b] False lu [OF bC] show ?thesis by auto
        qed
        then show ?thesis by blast
      qed
    next
      show "s \<in> ?C" by fact
    next
      show "lab gg ?rmap' s = int k" using lu [OF seed(1)] seed(2) by simp
    qed
  qed
qed

lemma regionVisit_keeps:
  assumes "length rmap = mapSize gg" "a \<in> cells gg" "lab gg rmap a = int k"
  shows "lab gg (fst (regionVisitT gg colr k n (rmap, sz, queue))) a = int k"
proof (cases "inBounds gg n")
  case False
  then show ?thesis using assms by (simp add: regionVisitT_def)
next
  case True
  then have nC: "n \<in> cells gg" by (simp add: cells_def)
  show ?thesis
    using assms lab_update [OF assms(1) nC assms(2), of "int k"]
    by (auto simp: regionVisitT_def Let_def)
qed

lemma fold_regionVisit_inv:
  assumes "bfsInv gg k colr s old cur (set ns) st" "oldInv gg k old"
    "cur \<in> cells gg" "lab gg (fst st) cur = int k"
    "set ns \<subseteq> set (getNeighbors gg (fst cur) (snd cur))"
  shows "bfsInv gg k colr s old cur {} (fold (regionVisitT gg colr k) ns st)"
  using assms(1,4,5)
proof (induction ns arbitrary: st)
  case Nil
  then show ?case by simp
next
  case (Cons n ns)
  obtain rmap sz queue where st: "st = (rmap, sz, queue)" by (cases st)
  from Cons.prems st have inv: "bfsInv gg k colr s old cur (insert n (set ns)) (rmap, sz, queue)"
    and lk: "lab gg rmap cur = int k"
    and n: "n \<in> set (getNeighbors gg (fst cur) (snd cur))" by auto
  from inv have len: "length rmap = mapSize gg" by (simp add: bfsInv_def)
  from regionVisit_inv [OF inv assms(2,3) lk n]
  have i1: "bfsInv gg k colr s old cur (set ns) (regionVisitT gg colr k n st)" by (simp add: st)
  have l1: "lab gg (fst (regionVisitT gg colr k n st)) cur = int k"
    using regionVisit_keeps [OF len assms(3) lk] by (simp add: st)
  from Cons.prems have "set ns \<subseteq> set (getNeighbors gg (fst cur) (snd cur))" by simp
  from Cons.IH [OF i1 l1 this] show ?case by simp
qed

lemma bfsInv_cur: "bfsInv gg k colr s old c {} st \<Longrightarrow> bfsInv gg k colr s old c' {} st"
  by (simp add: bfsInv_def)

lemma regionBfs_inv:
  "bfsInv gg k colr s old c0 {} st \<Longrightarrow> oldInv gg k old \<Longrightarrow>
     bfsInv gg k colr s old c0 {}
       (fst (regionBfsT gg colr k st), snd (regionBfsT gg colr k st), [])"
proof (induction gg colr k st arbitrary: c0 rule: regionBfsT.induct)
  case (1 gg colr k rmap sz)
  then show ?case by simp
next
  case (2 gg colr k rmap sz cur rest)
  let ?st1 = "(rmap, sz, rest)"
  let ?st2 = "fold (regionVisitT gg colr k) (getNeighbors gg (fst cur) (snd cur)) ?st1"
  from "2.prems"(1) have cur: "cur \<in> cells gg" "lab gg rmap cur = int k"
    by (auto simp: bfsInv_def)
  have i1: "bfsInv gg k colr s old cur (set (getNeighbors gg (fst cur) (snd cur))) ?st1"
    using "2.prems"(1) unfolding bfsInv_def by auto
  have i2: "bfsInv gg k colr s old cur {} ?st2"
    by (rule fold_regionVisit_inv [OF i1 "2.prems"(2) cur(1)]) (use cur in auto)
  from "2.IH" [OF i2 "2.prems"(2)]
  have "bfsInv gg k colr s old cur {}
          (fst (regionBfsT gg colr k ?st2), snd (regionBfsT gg colr k ?st2), [])" .
  then show ?case using bfsInv_cur by simp
qed

subsection \<open>The invariant of the loop over the cells\<close>

definition labInv :: "GameGrid \<Rightarrow> (nat \<times> nat) set \<Rightarrow> BuildState \<Rightarrow> bool" where
  "labInv gg P bs \<longleftrightarrow>
     length (regionMap bs) = mapSize gg \<and>
     oldInv gg (regionIdCounter bs) (regionMap bs) \<and>
     map fst (bs_nodes bs) = map int [0..<regionIdCounter bs] \<and>
     (\<forall>(i, n) \<in> set (bs_nodes bs). id_node n = i \<and> neighbors n = []) \<and>
     (\<forall>a \<in> cells gg. lab gg (regionMap bs) a \<noteq> -1 \<longrightarrow>
        (\<exists>n. map_of (bs_nodes bs) (lab gg (regionMap bs) a) = Some n \<and>
             color n = cellAt (grid gg) a)) \<and>
     (\<forall>j<regionIdCounter bs. \<exists>s \<in> cells gg. lab gg (regionMap bs) s = int j \<and>
        (\<forall>a \<in> cells gg. lab gg (regionMap bs) a = int j \<longrightarrow>
           (idxOf gg s, idxOf gg a) \<in> conn (edgesFrom gg (grid gg) (cells gg)))) \<and>
     P \<subseteq> cells gg \<and> (\<forall>a \<in> P. lab gg (regionMap bs) a \<noteq> -1)"

lemma bfsInv_finalD:
  assumes "bfsInv gg k colr s old c {} (rmap, sz, [])"
  shows "length rmap = mapSize gg"
    and "\<And>a. a \<in> cells gg \<Longrightarrow> lab gg old a \<noteq> -1 \<Longrightarrow> lab gg rmap a = lab gg old a"
    and "\<And>a. a \<in> cells gg \<Longrightarrow> lab gg old a = -1 \<Longrightarrow> lab gg rmap a = -1 \<or> lab gg rmap a = int k"
    and "\<And>a. a \<in> cells gg \<Longrightarrow> lab gg rmap a = int k \<Longrightarrow>
           cellAt (grid gg) a = colr \<and>
           (idxOf gg s, idxOf gg a) \<in> conn (edgesFrom gg (grid gg) (cells gg))"
    and "\<And>a b. a \<in> cells gg \<Longrightarrow> lab gg rmap a = int k \<Longrightarrow>
           b \<in> set (getNeighbors gg (fst a) (snd a)) \<Longrightarrow>
           cellAt (grid gg) b = colr \<Longrightarrow> lab gg rmap b = int k"
    and "lab gg rmap s = int k"
proof -
  note a = assms [unfolded bfsInv_def prod.case]
  note a1 = a [THEN conjunct1]
  note a2 = a [THEN conjunct2, THEN conjunct1]
  note a3 = a [THEN conjunct2, THEN conjunct2, THEN conjunct1]
  note a4 = a [THEN conjunct2, THEN conjunct2, THEN conjunct2, THEN conjunct1]
  note a6 = a [THEN conjunct2, THEN conjunct2, THEN conjunct2, THEN conjunct2, THEN conjunct2,
    THEN conjunct1]
  note a8 = a [THEN conjunct2, THEN conjunct2, THEN conjunct2, THEN conjunct2, THEN conjunct2,
    THEN conjunct2, THEN conjunct2]
  show "length rmap = mapSize gg" by (rule a1)
  show "\<And>a. a \<in> cells gg \<Longrightarrow> lab gg old a \<noteq> -1 \<Longrightarrow> lab gg rmap a = lab gg old a"
    using a2 by blast
  show "\<And>a. a \<in> cells gg \<Longrightarrow> lab gg old a = -1 \<Longrightarrow> lab gg rmap a = -1 \<or> lab gg rmap a = int k"
    using a3 by blast
  show "\<And>a. a \<in> cells gg \<Longrightarrow> lab gg rmap a = int k \<Longrightarrow>
           cellAt (grid gg) a = colr \<and>
           (idxOf gg s, idxOf gg a) \<in> conn (edgesFrom gg (grid gg) (cells gg))"
    using a4 by blast
  show "\<And>a b. a \<in> cells gg \<Longrightarrow> lab gg rmap a = int k \<Longrightarrow>
           b \<in> set (getNeighbors gg (fst a) (snd a)) \<Longrightarrow>
           cellAt (grid gg) b = colr \<Longrightarrow> lab gg rmap b = int k"
  proof -
    fix a b assume h: "a \<in> cells gg" "lab gg rmap a = int k"
      "b \<in> set (getNeighbors gg (fst a) (snd a))" "cellAt (grid gg) b = colr"
    from a6 h(1,2) have "a \<in> set [] \<or>
           (\<forall>b \<in> set (getNeighbors gg (fst a) (snd a)).
              (a = c \<and> b \<in> {}) \<or> (cellAt (grid gg) b = colr \<longrightarrow> lab gg rmap b = int k))"
      by blast
    with h(3,4) show "lab gg rmap b = int k" by auto
  qed
  show "lab gg rmap s = int k" by (rule a8)
qed

lemma labelCell_inv:
  assumes inv: "labInv gg P bs" and cell: "cell \<in> cells gg"
  shows "labInv gg (insert cell P) (labelCellT gg cell bs)"
proof (cases "lab gg (regionMap bs) cell \<noteq> -1")
  case True
  then have "labelCellT gg cell bs = bs" by (simp add: labelCellT_def lab_def Let_def)
  with inv True cell show ?thesis by (simp add: labInv_def)
next
  case False
  then have free: "lab gg (regionMap bs) cell = -1" by simp
  let ?C = "cells gg" and ?g = "grid gg" and ?E = "conn (edgesFrom gg (grid gg) (cells gg))"
  let ?k = "regionIdCounter bs" and ?old = "regionMap bs"
  let ?col = "cellAt ?g cell"
  let ?rz = "?old[getIdx gg (fst cell) (snd cell) := int ?k]"
  let ?res = "regionBfsT gg ?col ?k (?rz, 1, [cell])"
  let ?rm = "fst ?res"
  let ?nd = "\<lparr>id_node = int ?k, color = ?col, size_node = snd ?res, neighbors = []\<rparr>"
  let ?bs' = "\<lparr>regionMap = ?rm, regionIdCounter = ?k + 1,
               bs_nodes = bs_nodes bs @ [(int ?k, ?nd)],
               bs_idToCoord = bs_idToCoord bs @ [(int ?k, cell)]\<rparr>"
  have res: "labelCellT gg cell bs = ?bs'"
    using free by (simp add: labelCellT_def lab_def Let_def cellAt_def case_prod_beta)
  from inv have len: "length ?old = mapSize gg" and old: "oldInv gg ?k ?old"
    and keys: "map fst (bs_nodes bs) = map int [0..<?k]"
    and nds: "\<forall>(i, n) \<in> set (bs_nodes bs). id_node n = i \<and> neighbors n = []"
    and cols: "\<And>a. a \<in> ?C \<Longrightarrow> lab gg ?old a \<noteq> -1 \<Longrightarrow>
        \<exists>n. map_of (bs_nodes bs) (lab gg ?old a) = Some n \<and> color n = cellAt ?g a"
    and seeds: "\<And>j. j < ?k \<Longrightarrow> \<exists>s \<in> ?C. lab gg ?old s = int j \<and>
        (\<forall>a \<in> ?C. lab gg ?old a = int j \<longrightarrow> (idxOf gg s, idxOf gg a) \<in> ?E)"
    and PC: "P \<subseteq> ?C"
    and proc: "\<forall>a \<in> P. lab gg ?old a \<noteq> -1"
    unfolding labInv_def by blast+
  have oldrange: "0 \<le> lab gg ?old a \<and> lab gg ?old a < int ?k" if "a \<in> ?C" "lab gg ?old a \<noteq> -1" for a
    using old that unfolding oldInv_def by blast
  have oldclo: "lab gg ?old b = lab gg ?old a"
    if "a \<in> ?C" "lab gg ?old a \<noteq> -1" "b \<in> set (getNeighbors gg (fst a) (snd a))"
      "cellAt ?g b = cellAt ?g a" for a b
    using old that unfolding oldInv_def by blast
  have lz: "lab gg ?rz a = (if a = cell then int ?k else lab gg ?old a)" if "a \<in> ?C" for a
    by (rule lab_update [OF len cell that])
  have b0: "bfsInv gg ?k ?col cell ?old cell {} (?rz, 1, [cell])"
    unfolding bfsInv_def
  proof (simp only: prod.case, intro conjI ballI impI)
    show "length ?rz = mapSize gg" using len by simp
  next
    fix a assume "a \<in> ?C" "lab gg ?old a \<noteq> -1"
    then show "lab gg ?rz a = lab gg ?old a" using lz free by auto
  next
    fix a assume "a \<in> ?C" "lab gg ?old a = -1"
    then show "lab gg ?rz a = -1 \<or> lab gg ?rz a = int ?k" using lz by auto
  next
    fix a assume a: "a \<in> ?C" "lab gg ?rz a = int ?k"
    have "a = cell"
    proof (rule ccontr)
      assume "a \<noteq> cell"
      with a lz have "lab gg ?old a = int ?k" by simp
      with oldrange [OF a(1)] show False by simp
    qed
    then show "cellAt ?g a = ?col" "(idxOf gg cell, idxOf gg a) \<in> ?E" by simp_all
  next
    show "set [cell] \<subseteq> {a \<in> ?C. lab gg ?rz a = int ?k}" using cell lz by simp
  next
    fix a assume a: "a \<in> ?C" "lab gg ?rz a = int ?k"
    have "a = cell"
    proof (rule ccontr)
      assume "a \<noteq> cell"
      with a lz have "lab gg ?old a = int ?k" by simp
      with oldrange [OF a(1)] show False by simp
    qed
    then show "a \<in> set [cell] \<or>
         (\<forall>b\<in>set (getNeighbors gg (fst a) (snd a)).
             (a = cell \<and> b \<in> {}) \<or> (cellAt ?g b = ?col \<longrightarrow> lab gg ?rz b = int ?k))"
      by simp
  next
    show "cell \<in> ?C" by fact
  next
    show "lab gg ?rz cell = int ?k" using lz [OF cell] by simp
  qed
  from regionBfs_inv [OF b0 old]
  have bf: "bfsInv gg ?k ?col cell ?old cell {} (?rm, snd ?res, [])" .
  note len' = bfsInv_finalD(1) [OF bf] and frame = bfsInv_finalD(2) [OF bf]
    and fresh = bfsInv_finalD(3) [OF bf] and mine = bfsInv_finalD(4) [OF bf]
    and clo = bfsInv_finalD(5) [OF bf] and seedk = bfsInv_finalD(6) [OF bf]
  have newk: "lab gg ?old a = -1" if "a \<in> ?C" "lab gg ?rm a = int ?k" for a
  proof (rule ccontr)
    assume n: "lab gg ?old a \<noteq> -1"
    from frame [OF that(1) n] that(2) oldrange [OF that(1) n] show False by simp
  qed
  have keynone: "map_of (bs_nodes bs) (int ?k) = None"
  proof -
    have "int ?k \<notin> set (map fst (bs_nodes bs))" by (simp only: keys) auto
    then show ?thesis by (simp add: map_of_eq_None_iff)
  qed
  show ?thesis
    unfolding res labInv_def
  proof (simp only: BuildState.simps, intro conjI ballI allI impI)
    show "length ?rm = mapSize gg" by fact
  next
    show "oldInv gg (?k + 1) ?rm"
      unfolding oldInv_def
    proof (intro ballI impI conjI)
      fix a assume a: "a \<in> ?C" "lab gg ?rm a \<noteq> -1"
      show "0 \<le> lab gg ?rm a" "lab gg ?rm a < int (?k + 1)"
        using a frame [OF a(1)] fresh [OF a(1)] oldrange [OF a(1)]
        by (cases "lab gg ?old a = -1"; force)+
      fix b assume b: "b \<in> set (getNeighbors gg (fst a) (snd a))" "cellAt ?g b = cellAt ?g a"
      have bC: "b \<in> ?C" by (rule neighbors_in_cells [OF a(1) b(1)])
      show "lab gg ?rm b = lab gg ?rm a"
      proof (cases "lab gg ?old a = -1")
        case True
        with fresh [OF a(1)] a(2) have ak: "lab gg ?rm a = int ?k" by simp
        from mine [OF a(1) ak] b(2) have "cellAt ?g b = ?col" by simp
        from clo [OF a(1) ak b(1) this] ak show ?thesis by simp
      next
        case False
        from oldclo [OF a(1) False b] have e: "lab gg ?old b = lab gg ?old a" .
        with False have "lab gg ?old b \<noteq> -1" by simp
        from frame [OF bC this] frame [OF a(1) False] e show ?thesis by simp
      qed
    qed
  next
    show "map fst (bs_nodes bs @ [(int ?k, ?nd)]) = map int [0..<?k + 1]"
      using keys by simp
  next
    fix x assume "x \<in> set (bs_nodes bs @ [(int ?k, ?nd)])"
    then show "case x of (i, n) \<Rightarrow> id_node n = i \<and> neighbors n = []"
      using nds by auto
  next
    fix a assume a: "a \<in> ?C" "lab gg ?rm a \<noteq> -1"
    show "\<exists>n. map_of (bs_nodes bs @ [(int ?k, ?nd)]) (lab gg ?rm a) = Some n \<and>
              color n = cellAt ?g a"
    proof (cases "lab gg ?old a = -1")
      case True
      with fresh [OF a(1)] a(2) have ak: "lab gg ?rm a = int ?k" by simp
      from mine [OF a(1) ak] keynone ak show ?thesis by (simp add: map_add_def)
    next
      case False
      from cols [OF a(1) False] frame [OF a(1) False] show ?thesis
        by (auto simp: map_add_def)
    qed
  next
    fix j assume j: "j < ?k + 1"
    show "\<exists>s\<in>?C. lab gg ?rm s = int j \<and>
           (\<forall>a\<in>?C. lab gg ?rm a = int j \<longrightarrow> (idxOf gg s, idxOf gg a) \<in> ?E)"
    proof (cases "j = ?k")
      case True
      with cell seedk mine show ?thesis by blast
    next
      case False
      with j have jk: "j < ?k" by simp
      from seeds [OF jk] obtain s where s: "s \<in> ?C" "lab gg ?old s = int j"
        "\<forall>a \<in> ?C. lab gg ?old a = int j \<longrightarrow> (idxOf gg s, idxOf gg a) \<in> ?E" by blast
      have "lab gg ?rm s = int j" using frame [OF s(1)] s(2) by simp
      moreover have "(idxOf gg s, idxOf gg a) \<in> ?E" if a: "a \<in> ?C" "lab gg ?rm a = int j" for a
      proof -
        have "lab gg ?old a \<noteq> -1"
        proof
          assume "lab gg ?old a = -1"
          from fresh [OF a(1) this] a(2) jk show False by auto
        qed
        from frame [OF a(1) this] a(2) s(3) a(1) show ?thesis by simp
      qed
      ultimately show ?thesis using s(1) by blast
    qed
  next
    show "insert cell P \<subseteq> ?C" using PC cell by simp
  next
    fix a assume "a \<in> insert cell P"
    then show "lab gg ?rm a \<noteq> -1"
    proof
      assume "a = cell"
      with seedk show ?thesis by simp
    next
      assume aP: "a \<in> P"
      with proc PC have "a \<in> ?C" "lab gg ?old a \<noteq> -1" by auto
      from frame [OF this] this(2) show ?thesis by simp
    qed
  qed
qed

lemma fold_labelCell_inv:
  "labInv gg P bs \<Longrightarrow> set cs \<subseteq> cells gg \<Longrightarrow> labInv gg (P \<union> set cs) (fold (labelCellT gg) cs bs)"
proof (induction cs arbitrary: P bs)
  case Nil
  then show ?case by simp
next
  case (Cons c cs)
  from Cons.prems have c: "c \<in> cells gg" and cs: "set cs \<subseteq> cells gg" by auto
  from Cons.IH [OF labelCell_inv [OF Cons.prems(1) c] cs] show ?case by simp
qed

lemma set_allCells: "set (allCells gg) = cells gg"
  by (auto simp: allCells_def cells_iff)

lemma lab_init: "a \<in> cells gg \<Longrightarrow> lab gg (replicate (mapSize gg) (-1)) a = -1"
  using getIdx_less [of a gg] by (simp add: lab_def)

lemma labelRegions_inv: "labInv gg (cells gg) (labelRegionsT gg)"
proof -
  let ?init = "\<lparr>regionMap = replicate (nat (rows gg * cols gg)) (-1), regionIdCounter = 0,
        bs_nodes = [], bs_idToCoord = []\<rparr>"
  have "labInv gg {} ?init"
    using lab_init [of _ gg] by (simp add: labInv_def oldInv_def mapSize_def)
  from fold_labelCell_inv [OF this, of "allCells gg"] show ?thesis
    by (simp add: set_allCells labelRegionsT_def)
qed

text \<open>Step 2: adding an edge between two differently coloured nodes.\<close>

lemma addNeighbor_Inr:
  "map_of ns a \<noteq> None \<Longrightarrow>
     addNeighbor a b ns = Inr (map_modify a (\<lambda>n. n\<lparr>neighbors := set_add b (neighbors n)\<rparr>) ns)"
  by (auto simp: addNeighbor_def)

lemma addEdge_inv:
  assumes gi: "graphInv ns" and a: "a \<in> fst ` set ns" and b: "b \<in> fst ` set ns"
    and ne: "a \<noteq> b" and col: "colorOf ns a \<noteq> colorOf ns b"
  shows "\<exists>ns1 ns2. addNeighbor a b ns = Inr ns1 \<and> addNeighbor b a ns1 = Inr ns2 \<and>
           graphInv ns2 \<and> map fst ns2 = map fst ns \<and> (\<forall>k. colorOf ns2 k = colorOf ns k)"
proof -
  let ?f = "\<lambda>n. n\<lparr>neighbors := set_add b (neighbors n)\<rparr>"
  let ?h = "\<lambda>n. n\<lparr>neighbors := set_add a (neighbors n)\<rparr>"
  let ?ns1 = "map_modify a ?f ns"
  let ?ns2 = "map_modify b ?h ?ns1"
  let ?D = "fst ` set ns"
  from gi have wk: "wellKeyed ns" and ai: "absInv ?D (nbrsOf ns) (colorOf ns) 0 {}"
    by (auto simp: graphInv_def quasiInv_def)
  from a b have am: "map_of ns a \<noteq> None" and bm: "map_of ns b \<noteq> None" by (auto simp: keys_iff)
  have s1: "addNeighbor a b ns = Inr ?ns1" by (rule addNeighbor_Inr [OF am])
  have "map_of ?ns1 b \<noteq> None" using bm ne by simp
  then have s2: "addNeighbor b a ?ns1 = Inr ?ns2" by (rule addNeighbor_Inr)
  have N2: "nbrsOf ?ns2 k = (if k = a then insert b (nbrsOf ns k)
                             else if k = b then insert a (nbrsOf ns k) else nbrsOf ns k)" for k
    using ne am bm by (auto simp: nbrsOf_def split: option.splits)
  have C2: "colorOf ?ns2 k = colorOf ns k" for k
    by (auto simp: colorOf_def split: option.splits)
  have wk2: "wellKeyed ?ns2"
    using wk ne by (auto simp: wellKeyed_def split: if_splits)
  have ai2: "absInv (fst ` set ?ns2) (nbrsOf ?ns2) (colorOf ?ns2) 0 {}"
    unfolding absInv_def
  proof (intro ballI conjI impI)
    fix k assume "k \<in> fst ` set ?ns2"
    then have kD: "k \<in> ?D" by simp
    show "k \<notin> nbrsOf ?ns2 k" using absInv_noself [OF ai kD] ne by (auto simp: N2)
    fix j assume j: "j \<in> nbrsOf ?ns2 k"
    then consider (ab) "k = a" "j = b" | (ba) "k = b" "j = a" | (old) "j \<in> nbrsOf ns k"
      by (auto simp: N2 split: if_splits)
    then have "j \<in> ?D \<and> k \<in> nbrsOf ?ns2 j \<and> colorOf ns j \<noteq> colorOf ns k"
    proof cases
      case ab
      then show ?thesis using a b ne col by (auto simp: N2)
    next
      case ba
      then show ?thesis using a b ne col by (auto simp: N2)
    next
      case old
      from absInv_sym [OF ai kD old] absInv_col [OF ai kD old] show ?thesis
        by (auto simp: N2)
    qed
    then show "j \<in> fst ` set ?ns2" "k \<in> nbrsOf ?ns2 j"
      "colorOf ?ns2 j = colorOf ?ns2 k \<Longrightarrow> (k = 0 \<and> j \<in> {}) \<or> (j = 0 \<and> k \<in> {})"
      by (auto simp: C2)
  qed
  have "graphInv ?ns2" using wk2 ai2 by (simp add: graphInv_def quasiInv_def)
  with s1 s2 C2 show ?thesis by (intro exI [of _ ?ns1] exI [of _ ?ns2]) simp
qed

definition linkInv :: "GameGrid \<Rightarrow> BuildState \<Rightarrow> graph \<Rightarrow> bool" where
  "linkInv gg bs ns \<longleftrightarrow>
     graphInv ns \<and> map fst ns = map int [0..<regionIdCounter bs] \<and>
     (\<forall>a \<in> cells gg. colorOf ns (lab gg (regionMap bs) a) = cellAt (grid gg) a)"

lemma linkCell_inv:
  assumes lab: "labInv gg (cells gg) bs" and li: "linkInv gg bs ns"
    and a: "a \<in> cells gg" and n: "n \<in> set (getNeighbors gg (fst a) (snd a))"
  shows "\<exists>ns'. linkCell gg (regionMap bs) a n ns = Inr ns' \<and> linkInv gg bs ns'"
proof -
  let ?rm = "regionMap bs" and ?k = "regionIdCounter bs"
  have nC: "n \<in> cells gg" by (rule neighbors_in_cells [OF a n])
  have ib: "inBounds gg n" using nC by (simp add: cells_def)
  from lab have old: "oldInv gg ?k ?rm" and all: "\<forall>c \<in> cells gg. lab gg ?rm c \<noteq> -1"
    by (auto simp: labInv_def)
  from li have gi: "graphInv ns" and keys: "map fst ns = map int [0..<?k]"
    and cols: "\<And>c. c \<in> cells gg \<Longrightarrow> colorOf ns (lab gg ?rm c) = cellAt (grid gg) c"
    by (auto simp: linkInv_def)
  have rng: "lab gg ?rm c \<in> fst ` set ns" if "c \<in> cells gg" for c
  proof -
    from old all that have "0 \<le> lab gg ?rm c \<and> lab gg ?rm c < int ?k"
      unfolding oldInv_def by blast
    then have "lab gg ?rm c \<in> int ` {0..<?k}"
      by (intro image_eqI [of _ _ "nat (lab gg ?rm c)"]) auto
    also have "int ` {0..<?k} = set (map fst ns)" by (simp only: keys) simp
    finally show ?thesis by simp
  qed
  show ?thesis
  proof (cases "lab gg ?rm a = lab gg ?rm n")
    case True
    then have "linkCell gg ?rm a n ns = Inr ns" using ib by (simp add: linkCell_def lab_def Let_def)
    with li show ?thesis by simp
  next
    case False
    have "cellAt (grid gg) n \<noteq> cellAt (grid gg) a"
    proof
      assume "cellAt (grid gg) n = cellAt (grid gg) a"
      with old all a n have "lab gg ?rm n = lab gg ?rm a" unfolding oldInv_def by blast
      with False show False by simp
    qed
    then have cne: "colorOf ns (lab gg ?rm a) \<noteq> colorOf ns (lab gg ?rm n)"
      using cols [OF a] cols [OF nC] by simp
    from addEdge_inv [OF gi rng [OF a] rng [OF nC] False cne] obtain ns1 ns2 where
      s: "addNeighbor (lab gg ?rm a) (lab gg ?rm n) ns = Inr ns1"
         "addNeighbor (lab gg ?rm n) (lab gg ?rm a) ns1 = Inr ns2"
         "graphInv ns2" "map fst ns2 = map fst ns" "\<forall>k. colorOf ns2 k = colorOf ns k"
      by blast
    have "linkCell gg ?rm a n ns = Inr ns2"
      using ib False s(1,2) by (simp add: linkCell_def lab_def Let_def)
    moreover have "linkInv gg bs ns2"
      using s(3,4,5) keys cols by (simp add: linkInv_def)
    ultimately show ?thesis by blast
  qed
qed

lemma foldE_linkCell_inv:
  assumes "labInv gg (cells gg) bs" "linkInv gg bs ns" "a \<in> cells gg"
    "set nbs \<subseteq> set (getNeighbors gg (fst a) (snd a))"
  shows "\<exists>ns'. foldE (linkCell gg (regionMap bs) a) nbs ns = Inr ns' \<and> linkInv gg bs ns'"
  using assms(2,4)
proof (induction nbs arbitrary: ns)
  case Nil
  then show ?case by simp
next
  case (Cons n nbs)
  from Cons.prems have n: "n \<in> set (getNeighbors gg (fst a) (snd a))" by simp
  from linkCell_inv [OF assms(1) Cons.prems(1) assms(3) n] obtain ns1 where
    s1: "linkCell gg (regionMap bs) a n ns = Inr ns1" "linkInv gg bs ns1" by blast
  from Cons.prems have "set nbs \<subseteq> set (getNeighbors gg (fst a) (snd a))" by simp
  from Cons.IH [OF s1(2) this] s1(1) show ?case by simp
qed

lemma foldE_cells_inv:
  assumes "labInv gg (cells gg) bs" "linkInv gg bs ns" "set cs \<subseteq> cells gg"
  shows "\<exists>ns'. foldE (\<lambda>cell. foldE (linkCell gg (regionMap bs) cell)
                        (getNeighbors gg (fst cell) (snd cell))) cs ns = Inr ns' \<and>
               linkInv gg bs ns'"
  using assms(2,3)
proof (induction cs arbitrary: ns)
  case Nil
  then show ?case by simp
next
  case (Cons c cs)
  from Cons.prems have c: "c \<in> cells gg" by simp
  from foldE_linkCell_inv [OF assms(1) Cons.prems(1) c subset_refl] obtain ns1 where
    s1: "foldE (linkCell gg (regionMap bs) c) (getNeighbors gg (fst c) (snd c)) ns = Inr ns1"
        "linkInv gg bs ns1" by blast
  from Cons.prems have "set cs \<subseteq> cells gg" by simp
  from Cons.IH [OF s1(2) this] s1(1) show ?case by simp
qed

lemma labelled_graphInv:
  assumes "labInv gg (cells gg) bs"
  shows "linkInv gg bs (bs_nodes bs)"
proof -
  let ?ns = "bs_nodes bs"
  from assms have keys: "map fst ?ns = map int [0..<regionIdCounter bs]"
    and nds: "\<forall>(i, n) \<in> set ?ns. id_node n = i \<and> neighbors n = []"
    and cols: "\<And>a. a \<in> cells gg \<Longrightarrow> lab gg (regionMap bs) a \<noteq> -1 \<Longrightarrow>
        \<exists>n. map_of ?ns (lab gg (regionMap bs) a) = Some n \<and> color n = cellAt (grid gg) a"
    and all: "\<forall>c \<in> cells gg. lab gg (regionMap bs) c \<noteq> -1"
    unfolding labInv_def by blast+
  have d: "distinct (map fst ?ns)" by (simp only: keys) (simp add: distinct_map)
  have nd: "id_node n = i \<and> neighbors n = []" if "map_of ?ns i = Some n" for i n
    using map_of_SomeD [OF that] nds by auto
  have wk: "wellKeyed ?ns" using d nd by (auto simp: wellKeyed_def)
  have "absInv (fst ` set ?ns) (nbrsOf ?ns) (colorOf ?ns) 0 {}"
    using nd by (auto simp: absInv_def nbrsOf_def split: option.splits)
  with wk have "graphInv ?ns" by (simp add: graphInv_def quasiInv_def)
  moreover have "colorOf ?ns (lab gg (regionMap bs) a) = cellAt (grid gg) a" if "a \<in> cells gg" for a
    using cols [OF that] all that by (auto simp: colorOf_def)
  ultimately show ?thesis using keys by (simp add: linkInv_def)
qed

lemma linkRegions_labelled:
  "\<exists>ns'. linkRegions gg (regionMap (labelRegionsT gg)) (bs_nodes (labelRegionsT gg)) = Inr ns' \<and>
         linkInv gg (labelRegionsT gg) ns'"
proof -
  let ?bs = "labelRegionsT gg"
  have lab: "labInv gg (cells gg) ?bs" by (rule labelRegions_inv)
  have "set (allCells gg) \<subseteq> cells gg" by (simp add: set_allCells)
  from foldE_cells_inv [OF lab labelled_graphInv [OF lab] this] show ?thesis
    by (auto simp: linkRegions_def)
qed

lemma buildGraph_inv:
  assumes "buildGraph gg = Inr gs"
  shows "graphInv (nodes gs) \<and> map fst (nodes gs) = map int [0..<initialRegionCount gs] \<and>
         initialRegionCount gs = regionIdCounter (labelRegionsT gg)"
proof -
  from assms obtain bs where bs: "labelRegions gg = Inr bs"
    by (auto simp: buildGraph_def split: sum.splits)
  from labelRegions_total [OF bs] have e: "bs = labelRegionsT gg" .
  from linkRegions_labelled [of gg] obtain ns' where
    s: "linkRegions gg (regionMap bs) (bs_nodes bs) = Inr ns'" "linkInv gg bs ns'"
    unfolding e by blast
  from assms bs s(1) have "gs = \<lparr>nodes = ns', initialRegionCount = regionIdCounter bs,
                                   idToCoord = bs_idToCoord bs\<rparr>"
    by (simp add: buildGraph_def)
  with s(2) e show ?thesis by (simp add: linkInv_def)
qed

lemma buildGraph_ok:
  assumes "columnsExist gg" "0 \<le> rows gg * cols gg"
  shows "\<exists>gs. buildGraph gg = Inr gs"
proof -
  from linkRegions_labelled [of gg] obtain ns' where
    "linkRegions gg (regionMap (labelRegionsT gg)) (bs_nodes (labelRegionsT gg)) = Inr ns'"
    by blast
  with labelRegions_ok [OF assms] show ?thesis by (simp add: buildGraph_def)
qed

section \<open>The number of nodes and the region count\<close>

lemma idxOf_image: "idxOf gg ` cells gg = {..<cellCount gg}"
proof (intro equalityI subsetI)
  fix i assume "i \<in> idxOf gg ` cells gg"
  then show "i \<in> {..<cellCount gg}" using idxOf_less by auto
next
  fix i assume "i \<in> {..<cellCount gg}"
  then have i: "i < nat (rows gg) * nat (cols gg)" by (simp add: cellCount_def)
  let ?C = "nat (cols gg)"
  from i have cpos: "0 < ?C" by (cases "?C = 0") auto
  have "i div ?C < nat (rows gg)"
    using i cpos by (simp add: less_mult_imp_div_less)
  moreover have "i mod ?C < ?C" using cpos by simp
  ultimately have "(i div ?C, i mod ?C) \<in> cells gg" by (simp add: cells_iff)
  moreover have "idxOf gg (i div ?C, i mod ?C) = i" by (simp add: idxOf_def idx_def)
  ultimately show "i \<in> idxOf gg ` cells gg" by (metis image_eqI)
qed

lemma conn_label:
  assumes old: "oldInv gg k rmap" and all: "\<forall>c \<in> cells gg. lab gg rmap c \<noteq> -1"
    and a: "a \<in> cells gg" and c: "(idxOf gg a, j) \<in> conn (edgesFrom gg (grid gg) (cells gg))"
  shows "\<exists>b \<in> cells gg. j = idxOf gg b \<and> lab gg rmap b = lab gg rmap a"
proof -
  let ?E = "edgesFrom gg (grid gg) (cells gg)"
  have clo: "lab gg rmap y = lab gg rmap x"
    if "x \<in> cells gg" "y \<in> set (getNeighbors gg (fst x) (snd x))"
      "cellAt (grid gg) y = cellAt (grid gg) x" for x y
    using old all that unfolding oldInv_def by blast
  from c have "(idxOf gg a, j) \<in> (?E \<union> ?E\<inverse>)\<^sup>*" by (simp add: conn_def)
  then show ?thesis
  proof (induction rule: rtrancl_induct)
    case base
    with a show ?case by blast
  next
    case (step j l)
    from step.IH obtain b where b: "b \<in> cells gg" "j = idxOf gg b" "lab gg rmap b = lab gg rmap a"
      by blast
    from step.hyps(2) show ?case
    proof
      assume "(j, l) \<in> ?E"
      then obtain x y where xy: "x \<in> cells gg" "y \<in> set (getNeighbors gg (fst x) (snd x))"
        "cellAt (grid gg) y = cellAt (grid gg) x" "j = idxOf gg x" "l = idxOf gg y"
        by (auto simp: edgesFrom_iff)
      have "x = b" using idxOf_inj [OF xy(1) b(1)] xy(4) b(2) by simp
      with clo [OF xy(1,2,3)] b(3) have "lab gg rmap y = lab gg rmap a" by simp
      moreover have "y \<in> cells gg" by (rule neighbors_in_cells [OF xy(1,2)])
      ultimately show ?thesis using xy(5) by blast
    next
      assume "(j, l) \<in> ?E\<inverse>"
      then obtain x y where xy: "x \<in> cells gg" "y \<in> set (getNeighbors gg (fst x) (snd x))"
        "cellAt (grid gg) y = cellAt (grid gg) x" "l = idxOf gg x" "j = idxOf gg y"
        by (auto simp: edgesFrom_iff)
      have yC: "y \<in> cells gg" by (rule neighbors_in_cells [OF xy(1,2)])
      have "y = b" using idxOf_inj [OF yC b(1)] xy(5) b(2) by simp
      with clo [OF xy(1,2,3)] b(3) have "lab gg rmap x = lab gg rmap a" by simp
      with xy(1,4) show ?thesis by blast
    qed
  qed
qed

lemma label_kernel:
  assumes lab: "labInv gg (cells gg) bs" and a: "a \<in> cells gg" and b: "b \<in> cells gg"
  shows "lab gg (regionMap bs) a = lab gg (regionMap bs) b \<longleftrightarrow>
           (idxOf gg a, idxOf gg b) \<in> conn (edgesFrom gg (grid gg) (cells gg))"
proof
  let ?rm = "regionMap bs" and ?k = "regionIdCounter bs"
  let ?E = "conn (edgesFrom gg (grid gg) (cells gg))"
  from lab have old: "oldInv gg ?k ?rm" and all: "\<forall>c \<in> cells gg. lab gg ?rm c \<noteq> -1"
    and seeds: "\<And>j. j < ?k \<Longrightarrow> \<exists>s \<in> cells gg. lab gg ?rm s = int j \<and>
        (\<forall>a \<in> cells gg. lab gg ?rm a = int j \<longrightarrow> (idxOf gg s, idxOf gg a) \<in> ?E)"
    unfolding labInv_def by blast+
  {
    assume e: "lab gg ?rm a = lab gg ?rm b"
    from old all a have r: "0 \<le> lab gg ?rm a" "lab gg ?rm a < int ?k"
      unfolding oldInv_def by blast+
    then have jk: "nat (lab gg ?rm a) < ?k" and ja: "lab gg ?rm a = int (nat (lab gg ?rm a))"
      by auto
    from seeds [OF jk] obtain s where
      s: "\<forall>c \<in> cells gg. lab gg ?rm c = int (nat (lab gg ?rm a)) \<longrightarrow> (idxOf gg s, idxOf gg c) \<in> ?E"
      by blast
    from s a ja have sa: "(idxOf gg s, idxOf gg a) \<in> ?E" by simp
    from s b ja e have sb: "(idxOf gg s, idxOf gg b) \<in> ?E" by simp
    from conn_trans [OF conn_sym [OF sa] sb] show "(idxOf gg a, idxOf gg b) \<in> ?E" .
  }
  {
    assume "(idxOf gg a, idxOf gg b) \<in> ?E"
    from conn_label [OF old all a this] obtain b' where
      b': "b' \<in> cells gg" "idxOf gg b = idxOf gg b'" "lab gg ?rm b' = lab gg ?rm a" by blast
    from idxOf_inj [OF b b'(1) b'(2)] b'(3) show "lab gg ?rm a = lab gg ?rm b" by simp
  }
qed

lemma label_count:
  assumes lab: "labInv gg (cells gg) bs"
  shows "card (lab gg (regionMap bs) ` cells gg) = regionIdCounter bs"
proof -
  let ?rm = "regionMap bs" and ?k = "regionIdCounter bs"
  from lab have old: "oldInv gg ?k ?rm" and all: "\<forall>c \<in> cells gg. lab gg ?rm c \<noteq> -1"
    and seeds: "\<And>j. j < ?k \<Longrightarrow> \<exists>s \<in> cells gg. lab gg ?rm s = int j"
    unfolding labInv_def by blast+
  have "lab gg ?rm ` cells gg = int ` {..<?k}"
  proof (intro equalityI subsetI)
    fix x assume "x \<in> lab gg ?rm ` cells gg"
    then obtain c where c: "c \<in> cells gg" "x = lab gg ?rm c" by blast
    with old all have "0 \<le> x" "x < int ?k" unfolding oldInv_def by blast+
    then show "x \<in> int ` {..<?k}" by (intro image_eqI [of _ _ "nat x"]) auto
  next
    fix x assume "x \<in> int ` {..<?k}"
    then obtain j where "j < ?k" "x = int j" by auto
    with seeds [of j] show "x \<in> lab gg ?rm ` cells gg" by force
  qed
  then show ?thesis by (simp add: card_image)
qed

lemma buildGraph_count:
  assumes con: "consistent gg"
  shows "\<exists>gs. buildGraph gg = Inr gs \<and> graphInv (nodes gs) \<and>
           length (nodes gs) = getRegionCount gg \<and> initialRegionCount gs = getRegionCount gg"
proof -
  let ?bs = "labelRegionsT gg" and ?u = "uf gg"
  let ?E = "edgesFrom gg (grid gg) (cells gg)"
  from con have gs: "gridShape gg" and wd: "wfDims gg" and rep: "ufRep (cellCount gg) ?u ?E"
    by (auto simp: consistent_def)
  from gs have ce: "columnsExist gg" by (simp add: gridShape_def columnsExist_def)
  from wd have "0 \<le> rows gg * cols gg" by (simp add: wfDims_def)
  from buildGraph_ok [OF ce this] obtain gs where g1: "buildGraph gg = Inr gs" by blast
  from buildGraph_inv [OF g1] g1 have
    g: "buildGraph gg = Inr gs" "graphInv (nodes gs)"
       "map fst (nodes gs) = map int [0..<initialRegionCount gs]"
       "initialRegionCount gs = regionIdCounter ?bs" by simp_all
  have lab: "labInv gg (cells gg) ?bs" by (rule labelRegions_inv)
  from rep have inv: "ufInv (cellCount gg) ?u"
    and eq: "\<And>x y. x < cellCount gg \<Longrightarrow> y < cellCount gg \<Longrightarrow>
               uf_find ?u x = uf_find ?u y \<longleftrightarrow> (x, y) \<in> conn ?E"
    by (auto simp: ufRep_def)
  have k: "\<forall>a \<in> cells gg. \<forall>b \<in> cells gg.
      (uf_find ?u \<circ> idxOf gg) a = (uf_find ?u \<circ> idxOf gg) b \<longleftrightarrow>
      lab gg (regionMap ?bs) a = lab gg (regionMap ?bs) b"
    using eq idxOf_less label_kernel [OF lab] by simp
  have "count ?u = card (uf_find ?u ` {..<cellCount gg})" by (rule count_as_image [OF inv])
  also have "\<dots> = card ((uf_find ?u \<circ> idxOf gg) ` cells gg)"
    by (simp only: idxOf_image [symmetric] image_comp)
  also have "\<dots> = card (lab gg (regionMap ?bs) ` cells gg)" by (rule card_image_kernel [OF k])
  also have "\<dots> = regionIdCounter ?bs" by (rule label_count [OF lab])
  finally have c: "getRegionCount gg = regionIdCounter ?bs" by (simp add: getRegionCount_def)
  have "length (nodes gs) = length (map fst (nodes gs))" by simp
  also have "\<dots> = initialRegionCount gs" by (simp only: g(3)) simp
  finally have "length (nodes gs) = initialRegionCount gs" .
  with g c show ?thesis by simp
qed

section \<open>Serialisation, constructed grids and graphs of one node\<close>


lemma getNeighbors_cong: "rows gg' = rows gg \<Longrightarrow> cols gg' = cols gg \<Longrightarrow> getNeighbors gg' = getNeighbors gg"
  by (simp add: getNeighbors_def fun_eq_iff Let_def)

lemma inBounds_cong: "rows gg' = rows gg \<Longrightarrow> cols gg' = cols gg \<Longrightarrow> inBounds gg' = inBounds gg"
  by (simp add: inBounds_def fun_eq_iff)

lemma idx_cong: "cols gg' = cols gg \<Longrightarrow> idx gg' = idx gg"
  by (simp add: idx_def fun_eq_iff)

lemma buildUnionFind_cong:
  assumes "rows gg' = rows gg" "cols gg' = cols gg" "grid gg' = grid gg"
  shows "buildUnionFind gg' = buildUnionFind gg"
proof -
  have "unionCell gg' = unionCell gg"
    by (simp add: unionCell_def fun_eq_iff getNeighbors_cong [OF assms(1,2)]
        inBounds_cong [OF assms(1,2)] idx_cong [OF assms(2)] cong: if_cong)
  then show ?thesis by (simp add: buildUnionFind_def assms Let_def cong: if_cong option.case_cong)
qed

lemma solve_single:
  "length ns = 1 \<Longrightarrow> 0 \<le> m \<Longrightarrow> solve ns (Some m) = Inr (Some \<lparr>steps = 0, path = []\<rparr>)"
  by (simp add: solve_def limits_def upto_rec1 dfs.simps [of ns 0 0 "[]"])

lemma GameGrid_new_consistent:
  assumes "0 \<le> vside" "0 \<le> cs" "length g = nat cs"
    "\<forall>col \<in> set g. length col = nat (2 * vside + 1) \<and> None \<notin> set col"
  shows "consistent (GameGrid_new vside cs cc (Some g))"
proof -
  let ?gz = "\<lparr>vside_rows = vside, rows = 2 * vside + 1, cols = cs, colorCount = max 1 cc,
             grid = g, uf = uf_new 0\<rparr>"
  let ?gg = "?gz\<lparr>uf := buildUnionFind ?gz\<rparr>"
  have e: "GameGrid_new vside cs cc (Some g) = ?gg"
    by (simp add: GameGrid_new_def Let_def)
  have "buildUnionFind ?gg = buildUnionFind ?gz"
    by (rule buildUnionFind_cong) simp_all
  then have "uf ?gg = buildUnionFind ?gg" by simp
  moreover have "wfDims ?gg" using assms by (simp add: wfDims_def)
  moreover have "gridShape ?gg" using assms by (simp add: gridShape_def)
  moreover have "noHoles ?gg" using assms by (simp add: noHoles_def)
  ultimately have "consistent ?gg" by (rule buildUnionFind_consistent [rotated 3])
  with e show ?thesis by simp
qed


lemma stripes_consistent: "consistent stripes"
  unfolding stripes_def by (rule GameGrid_new_consistent) auto

lemma twoColumns_built: "uf twoColumns = buildUnionFind twoColumns"
  unfolding twoColumns_def GameGrid_new_def Let_def
  by (simp, rule buildUnionFind_cong [symmetric]) simp_all

lemma floodFills_rebuild:
  assumes "consistent gg"
    and "\<forall>(r, c, k) \<in> set calls. int r < rows gg \<and> int c < cols gg"
  shows "\<exists>gg'. floodFills gg calls = Inr gg' \<and>
           getRegionCount gg' = count (buildUnionFind gg') \<and>
           (\<forall>a b. inBounds gg' a \<and> inBounds gg' b \<longrightarrow>
              sameComponent gg' (uf gg') a b = sameComponent gg' (buildUnionFind gg') a b)"
proof -
  from floodFills_consistent [OF assms] obtain gg' where
    g: "floodFills gg calls = Inr gg'" "consistent gg'" by blast
  from consistent_rebuild [OF g(2)] g(1) show ?thesis
    by (auto simp: sameComponent_def cells_def idxOf_def)
qed




section \<open>The depth limits of \<open>solve\<close>\<close>

text \<open>
  C10. \<open>solve(m)\<close> with \<open>m < 0\<close> runs the loop over the limits zero times and returns
  \<open>null\<close> for every graph, a graph of one node included; for \<open>m \<ge> 0\<close> a graph of one node
  gives the result of zero steps and the empty path.
\<close>

theorem solve_negative_limit:
  "(m < 0 \<longrightarrow> limits (Some m) = [] \<and> solve ns (Some m) = Inr None) \<and>
   (0 \<le> m \<and> length ns = 1 \<longrightarrow> solve ns (Some m) = Inr (Some \<lparr>steps = 0, path = []\<rparr>))"
  by (auto simp: solve_def limits_def upto_rec1 dfs.simps [of ns 0 0 "[]"])

theorem solve_negative_limit_witness:
  "(-1::int) < 0 \<and> limits (Some (-1)) = [] \<and>
   solve [(7, \<lparr>id_node = 7, color = Some 2, size_node = 4, neighbors = []\<rparr>)] (Some (-1)) = Inr None \<and>
   (0::int) \<le> 0 \<and> length [(7, \<lparr>id_node = 7, color = Some 2, size_node = 4, neighbors = []\<rparr>)] = 1 \<and>
   solve [(7, \<lparr>id_node = 7, color = Some 2, size_node = 4, neighbors = []\<rparr>)] (Some 0)
     = Inr (Some \<lparr>steps = 0, path = []\<rparr>)"
  using solve_negative_limit [of "-1" "[(7, \<lparr>id_node = 7, color = Some 2, size_node = 4, neighbors = []\<rparr>)]"]
    solve_negative_limit [of 0 "[(7, \<lparr>id_node = 7, color = Some 2, size_node = 4, neighbors = []\<rparr>)]"]
  by simp

text \<open>
  C3, as stated, fails: called without a maximum depth, \<open>solve\<close> stops after limit 10. The
  column of thirteen colours needs twelve moves; \<open>solve()\<close> reports no solution for it and
  \<open>solve(15)\<close> finds the twelve moves.
\<close>

theorem solve_default_limit_counterexample:
  "solve rainbowGraph None = Inr None \<and>
   map_option steps (projr (solve rainbowGraph (Some 15))) = Some 12"
  by code_simp

text \<open>
  C3, amended. Called without a maximum depth, \<open>solve\<close> searches the limits 0 to 10, the
  default of its parameter. The solve flow of the store always passes 15, so the product
  searches the limits 0 to 15.
\<close>

theorem solve_default_limit:
  "limits None = [0..10] \<and> solve ns None = solve ns (Some 10) \<and>
   limits (Some 15) = [0..15] \<and>
   solution (solvePuzzle gg colors) =
     (case buildGraph gg of
        Inl e \<Rightarrow> None
      | Inr gs \<Rightarrow>
          (case firstResult (\<lambda>limit. dfs (nodes gs) 0 limit []) [0..15] of
             Inl e \<Rightarrow> None
           | Inr None \<Rightarrow> None
           | Inr (Some res) \<Rightarrow> Some (toSolution gs (path res) colors)))"
  by (simp add: limits_def solve_def solvePuzzle_def split: sum.splits option.splits)

section \<open>Reading a colour\<close>

text \<open>
  C9, as stated, fails: \<open>getColorIndex\<close> compares with nothing, it reads the array. The
  constructor stores the array it is given, whatever its shape. On a grid of one row and
  one column whose only column holds two entries, the coordinate \<open>(1, 0)\<close> is outside the
  bounds (\<open>r \<ge> rows\<close>) and \<open>getColorIndex(1, 0)\<close> is 7, the entry stored there.
\<close>

theorem getColorIndex_out_of_bounds_counterexample:
  "rows (GameGrid_new 0 1 8 (Some [[Some 0, Some 7]])) = 1 \<and>
   cols (GameGrid_new 0 1 8 (Some [[Some 0, Some 7]])) = 1 \<and>
   getColorIndex (GameGrid_new 0 1 8 (Some [[Some 0, Some 7]])) 1 0 = 7"
  by (simp add: GameGrid_new_def getColorIndex_def gridAt_def)

text \<open>
  C9, amended. On a grid whose colour array has exactly \<open>cols\<close> columns of \<open>rows\<close> entries
  each, \<open>getColorIndex(r, c)\<close> returns 0 for every coordinate outside the bounds (\<open>r < 0\<close>,
  \<open>r \<ge> rows\<close>, \<open>c < 0\<close> or \<open>c \<ge> cols\<close>); the function has no failing branch.
\<close>

theorem getColorIndex_out_of_bounds:
  assumes "gridShape gg" and "r < 0 \<or> rows gg \<le> r \<or> c < 0 \<or> cols gg \<le> c"
  shows "getColorIndex gg r c = 0"
  using assms by (auto simp: getColorIndex_def gridAt_def gridShape_def)

theorem getColorIndex_out_of_bounds_witness:
  "gridShape stripes \<and> rows stripes \<le> 3 \<and> getColorIndex stripes 3 1 = 0 \<and>
   getColorIndex stripes 2 (-1) = 0 \<and> getColorIndex stripes 2 1 = 1"
  using getColorIndex_out_of_bounds [of stripes 3 1]
    getColorIndex_out_of_bounds [of stripes 2 "-1"]
  by (simp add: gridShape_def stripes_def GameGrid_new_def getColorIndex_def gridAt_def)

section \<open>The search returns a shortest sequence of moves\<close>

text \<open>
  C1. For every region graph (a graph with the node invariants) and every depth cap
  \<open>m \<ge> 0\<close>: if \<open>solve(m)\<close> returns a result, its path is a sequence of moves that
  reduces the graph to one node, \<open>steps\<close> is the length of that path, and no sequence of
  moves that reaches the goal is shorter.
\<close>

theorem solve_minimal:
  assumes "regionGraph ns" and "0 \<le> m" and "solve ns (Some m) = Inr (Some res)"
  shows "reachesGoal ns (path res) \<and> steps res = int (length (path res)) \<and>
         (\<forall>ps. reachesGoal ns ps \<longrightarrow> steps res \<le> int (length ps))"
proof -
  from assms(1) have "graphInv ns" by (simp add: regionGraph_iff)
  from solve_minimal_aux [OF this assms(3)] show ?thesis .
qed

theorem solve_minimal_witness:
  "regionGraph twoColumnsGraph \<and> (0::int) \<le> 15 \<and>
   solve twoColumnsGraph (Some 15) =
     Inr (Some \<lparr>steps = 2, path = [\<lparr>step_regionId = 1, step_color = Some 0\<rparr>,
                                       \<lparr>step_regionId = 1, step_color = Some 2\<rparr>]\<rparr>) \<and>
   reachesGoal twoColumnsGraph [\<lparr>step_regionId = 1, step_color = Some 0\<rparr>,
                                \<lparr>step_regionId = 1, step_color = Some 2\<rparr>] \<and>
   reachesGoal twoColumnsGraph [\<lparr>step_regionId = 0, step_color = Some 1\<rparr>,
                                \<lparr>step_regionId = 4, step_color = Some 1\<rparr>,
                                \<lparr>step_regionId = 4, step_color = Some 2\<rparr>] \<and>
   (2::int) \<le> int (length [\<lparr>step_regionId = 0, step_color = Some 1\<rparr>,
                               \<lparr>step_regionId = 4, step_color = Some 1\<rparr>,
                               \<lparr>step_regionId = 4, step_color = Some 2\<rparr>])"
proof -
  have g: "regionGraph twoColumnsGraph"
    by code_simp
  have s: "solve twoColumnsGraph (Some 15) =
     Inr (Some \<lparr>steps = 2, path = [\<lparr>step_regionId = 1, step_color = Some 0\<rparr>,
                                       \<lparr>step_regionId = 1, step_color = Some 2\<rparr>]\<rparr>)"
    by code_simp
  have r: "reachesGoal twoColumnsGraph [\<lparr>step_regionId = 0, step_color = Some 1\<rparr>,
                                \<lparr>step_regionId = 4, step_color = Some 1\<rparr>,
                                \<lparr>step_regionId = 4, step_color = Some 2\<rparr>]"
    by code_simp
  from solve_minimal [OF g _ s] g s r show ?thesis
    by simp
qed

section \<open>Flood fill and the Union-Find\<close>

text \<open>
  C2. Start from a grid as the constructor leaves it: \<open>rows = 2 * vside_rows + 1\<close>, the
  colour array has \<open>cols\<close> columns of \<open>rows\<close> entries, each a colour index, and the
  Union-Find is the one \<open>buildUnionFind\<close> computes. After any sequence of \<open>floodFill\<close> calls
  that start inside the bounds, every call returns, and the Union-Find the calls have
  maintained is equivalent to the one \<open>buildUnionFind\<close> computes from the colour array they
  leave: \<open>getRegionCount()\<close> is its component count, and two cells have one representative
  in the first exactly when they have one in the second.
\<close>

theorem floodFill_matches_rebuild:
  assumes "rows gg = 2 * vside_rows gg + 1" "gridShape gg" "noHoles gg"
    "uf gg = buildUnionFind gg"
    and "\<forall>(r, c, k) \<in> set calls. int r < rows gg \<and> int c < cols gg"
  shows "\<exists>gg'. floodFills gg calls = Inr gg' \<and>
           getRegionCount gg' = count (buildUnionFind gg') \<and>
           (\<forall>a b. inBounds gg' a \<and> inBounds gg' b \<longrightarrow>
              sameComponent gg' (uf gg') a b = sameComponent gg' (buildUnionFind gg') a b)"
proof (cases calls)
  case Nil
  with assms(4) show ?thesis by (simp add: getRegionCount_def)
next
  case (Cons call rest)
  obtain r c k where "call = (r, c, k)" by (cases call)
  with Cons assms(5) have "int r < rows gg" "int c < cols gg" by simp_all
  with assms(1) have "wfDims gg" by (simp add: wfDims_def)
  from buildUnionFind_consistent [OF this assms(2,3,4)] have "consistent gg" .
  from floodFills_rebuild [OF this assms(5)] show ?thesis .
qed

theorem floodFill_matches_rebuild_witness:
  "rows twoColumns = 2 * vside_rows twoColumns + 1 \<and> gridShape twoColumns \<and>
   noHoles twoColumns \<and> uf twoColumns = buildUnionFind twoColumns \<and>
   int 1 < rows twoColumns \<and> int 0 < cols twoColumns \<and> int 0 < rows twoColumns \<and>
   floodFills twoColumns [(1, 0, 2), (0, 0, 2)] =
     Inr \<lparr>vside_rows = 1, rows = 3, cols = 2, colorCount = 3, grid = map (map Some) [[2, 2, 2], [2, 2, 0]],
          uf = \<lparr>parent = [0, 0, 0, 0, 0, 5], count = 2\<rparr>\<rparr> \<and>
   count (buildUnionFind \<lparr>vside_rows = 1, rows = 3, cols = 2, colorCount = 3,
                          grid = map (map Some) [[2, 2, 2], [2, 2, 0]],
                          uf = \<lparr>parent = [0, 0, 0, 0, 0, 5], count = 2\<rparr>\<rparr>) = 2"
proof -
  have d: "rows twoColumns = 2 * vside_rows twoColumns + 1" "gridShape twoColumns"
    "rows twoColumns = 3" "cols twoColumns = 2" "noHoles twoColumns" "vside_rows twoColumns = 1"
    by (auto simp: gridShape_def noHoles_def twoColumns_def GameGrid_new_def)
  have f: "floodFills twoColumns [(1, 0, 2), (0, 0, 2)] =
     Inr \<lparr>vside_rows = 1, rows = 3, cols = 2, colorCount = 3, grid = map (map Some) [[2, 2, 2], [2, 2, 0]],
          uf = \<lparr>parent = [0, 0, 0, 0, 0, 5], count = 2\<rparr>\<rparr>"
    by code_simp
  have b: "\<forall>(r, c, k) \<in> set [(1, 0, 2), (0, 0, 2::int)]. int r < rows twoColumns \<and> int c < cols twoColumns"
    by (simp add: d)
  from floodFill_matches_rebuild [OF d(1,2,5) twoColumns_built b] f d twoColumns_built
  show ?thesis by (simp add: getRegionCount_def)
qed

section \<open>The invariants of the solver's graphs\<close>

text \<open>
  C5. Every graph that \<open>buildGraph\<close> produces, and every graph that \<open>applyMove\<close> returns
  for such a graph, has the node invariants: the neighbour relation is symmetric, no node
  has its own id among its neighbours, every neighbour id is a key of the map, and two
  neighbouring nodes have different colours. It is a map of nodes as well: no key twice,
  every node under its own id.
\<close>

theorem solverGraphs_invariants:
  "ns \<in> solverGraphs \<Longrightarrow>
     symmetricNeighbors ns \<and> noSelfNeighbor ns \<and> neighborsAreKeys ns \<and>
     neighborColorsDiffer ns \<and> mapWellFormed ns"
proof -
  assume "ns \<in> solverGraphs"
  then have "regionGraph ns"
  proof (induction rule: solverGraphs.induct)
    case (built gg gs)
    from buildGraph_inv [OF this] show ?case by (simp add: regionGraph_iff)
  next
    case (moved ns targetId newColor ns')
    then show ?case using applyMove_regionGraph by blast
  qed
  then show ?thesis by (simp add: regionGraph_def)
qed

theorem solverGraphs_invariants_witness:
  "[(1, \<lparr>id_node = 1, color = Some 0, size_node = 4, neighbors = [2, 3]\<rparr>),
    (2, \<lparr>id_node = 2, color = Some 2, size_node = 1, neighbors = [1]\<rparr>),
    (3, \<lparr>id_node = 3, color = Some 2, size_node = 1, neighbors = [1]\<rparr>)] \<in> solverGraphs \<and>
   symmetricNeighbors
     [(1, \<lparr>id_node = 1, color = Some 0, size_node = 4, neighbors = [2, 3]\<rparr>),
      (2, \<lparr>id_node = 2, color = Some 2, size_node = 1, neighbors = [1]\<rparr>),
      (3, \<lparr>id_node = 3, color = Some 2, size_node = 1, neighbors = [1]\<rparr>)] \<and>
   neighborColorsDiffer
     [(1, \<lparr>id_node = 1, color = Some 0, size_node = 4, neighbors = [2, 3]\<rparr>),
      (2, \<lparr>id_node = 2, color = Some 2, size_node = 1, neighbors = [1]\<rparr>),
      (3, \<lparr>id_node = 3, color = Some 2, size_node = 1, neighbors = [1]\<rparr>)]"
proof -
  have b: "buildGraph twoColumns =
    Inr \<lparr>nodes =
        [(0, \<lparr>id_node = 0, color = Some 0, size_node = 1, neighbors = [1]\<rparr>),
         (1, \<lparr>id_node = 1, color = Some 1, size_node = 2, neighbors = [0, 2, 3, 4]\<rparr>),
         (2, \<lparr>id_node = 2, color = Some 2, size_node = 1, neighbors = [1]\<rparr>),
         (3, \<lparr>id_node = 3, color = Some 2, size_node = 1, neighbors = [1]\<rparr>),
         (4, \<lparr>id_node = 4, color = Some 0, size_node = 1, neighbors = [1]\<rparr>)],
        initialRegionCount = 5,
        idToCoord = [(0, 0, 0), (1, 1, 0), (2, 2, 0), (3, 0, 1), (4, 2, 1)]\<rparr>"
    by code_simp
  have m: "applyMove
        [(0, \<lparr>id_node = 0, color = Some 0, size_node = 1, neighbors = [1]\<rparr>),
         (1, \<lparr>id_node = 1, color = Some 1, size_node = 2, neighbors = [0, 2, 3, 4]\<rparr>),
         (2, \<lparr>id_node = 2, color = Some 2, size_node = 1, neighbors = [1]\<rparr>),
         (3, \<lparr>id_node = 3, color = Some 2, size_node = 1, neighbors = [1]\<rparr>),
         (4, \<lparr>id_node = 4, color = Some 0, size_node = 1, neighbors = [1]\<rparr>)] 1 (Some 0) =
     Inr [(1, \<lparr>id_node = 1, color = Some 0, size_node = 4, neighbors = [2, 3]\<rparr>),
          (2, \<lparr>id_node = 2, color = Some 2, size_node = 1, neighbors = [1]\<rparr>),
          (3, \<lparr>id_node = 3, color = Some 2, size_node = 1, neighbors = [1]\<rparr>)]"
    by code_simp
  from solverGraphs.built [OF b] have
    "[(0, \<lparr>id_node = 0, color = Some 0, size_node = 1, neighbors = [1]\<rparr>),
      (1, \<lparr>id_node = 1, color = Some 1, size_node = 2, neighbors = [0, 2, 3, 4]\<rparr>),
      (2, \<lparr>id_node = 2, color = Some 2, size_node = 1, neighbors = [1]\<rparr>),
      (3, \<lparr>id_node = 3, color = Some 2, size_node = 1, neighbors = [1]\<rparr>),
      (4, \<lparr>id_node = 4, color = Some 0, size_node = 1, neighbors = [1]\<rparr>)] \<in> solverGraphs"
    by simp
  from solverGraphs.moved [OF this m] have s:
    "[(1, \<lparr>id_node = 1, color = Some 0, size_node = 4, neighbors = [2, 3]\<rparr>),
      (2, \<lparr>id_node = 2, color = Some 2, size_node = 1, neighbors = [1]\<rparr>),
      (3, \<lparr>id_node = 3, color = Some 2, size_node = 1, neighbors = [1]\<rparr>)] \<in> solverGraphs" .
  from solverGraphs_invariants [OF s] s show ?thesis by simp
qed

section \<open>The number of region nodes\<close>



section \<open>The round trip through JSON\<close>




section \<open>The solve flow on a grid of one region\<close>

text \<open>
  C4, as stated, fails: the solve flow has no short cut, it always constructs the
  \<open>GraphSolver\<close> first. On the grid of six cells in one colour, whose region count is 1,
  it constructs the region graph, of one node. And the region count alone does not give
  the solution: the grid of one declared cell whose array has no column has region count
  1, the constructor of \<open>GraphSolver\<close> throws on it, and the solve flow leaves no solution.
\<close>

theorem solvePuzzle_single_region_counterexample:
  "getRegionCount stripes = 1 \<and>
   graphSolver (solvePuzzle stripes []) =
     Some \<lparr>nodes = [(0, \<lparr>id_node = 0, color = Some 1, size_node = 6, neighbors = []\<rparr>)],
           initialRegionCount = 1, idToCoord = [(0, 0, 0)]\<rparr> \<and>
   getRegionCount noColumns = 1 \<and> buildGraph noColumns = Inl TypeError \<and>
   solution (solvePuzzle noColumns []) = None"
  by code_simp

text \<open>
  C4, amended. For a well-formed grid (the declared shape, every entry a colour index, a
  consistent Union-Find) whose region count is 1, the solve flow constructs the region
  graph, which has one node, and returns the solution of zero steps and the empty path.
\<close>

theorem solvePuzzle_single_region:
  assumes con: "consistent gg" and one: "getRegionCount gg = 1"
  shows "solution (solvePuzzle gg colors) = Some \<lparr>sol_steps = 0, sol_path = []\<rparr> \<and>
         (\<exists>gs. graphSolver (solvePuzzle gg colors) = Some gs \<and> length (nodes gs) = 1)"
proof -
  from buildGraph_count [OF con] one obtain gs where
    g: "buildGraph gg = Inr gs" "length (nodes gs) = 1" by auto
  from solve_single [OF g(2), of 15] g show ?thesis
    by (simp add: solvePuzzle_def toSolution_def)
qed

theorem solvePuzzle_single_region_witness:
  "consistent stripes \<and> getRegionCount stripes = 1 \<and>
   solution (solvePuzzle stripes [''#f00'', ''#0f0'']) = Some \<lparr>sol_steps = 0, sol_path = []\<rparr> \<and>
   map_option (\<lambda>gs. length (nodes gs)) (graphSolver (solvePuzzle stripes [''#f00'', ''#0f0''])) = Some 1"
proof -
  have one: "getRegionCount stripes = 1" by code_simp
  from solvePuzzle_single_region [OF stripes_consistent one, of "[''#f00'', ''#0f0'']"]
    stripes_consistent one
  show ?thesis by auto
qed

section \<open>\<open>applyMove\<close> leaves its input as it is\<close>

text \<open>
  C7. Whatever \<open>applyMove(nodes, targetId, newColor)\<close> does, return or throw, every object
  that was in the store before the call is the same after it: the input map (its keys
  and the nodes under them), every node (id, colour, size) and every neighbour set. So
  the graph read at the address of the input map is the graph it was. The map returned
  is a new object: the merge is done on the copies. On the example it is the graph that
  \<open>applyMove\<close> on values returns.
\<close>

theorem applyMove_frame:
  assumes "applyMoveH nodesAddr targetId newColor h = (res, h')"
  shows "take (length h) h' = h \<and>
         (\<forall>g. readGraph h nodesAddr = Some g \<longrightarrow> readGraph h' nodesAddr = Some g) \<and>
         (\<forall>newNodes. res = Inr newNodes \<longrightarrow> length h \<le> newNodes)"
proof -
  have "freshInv (length h) h" by (auto simp: freshInv_def)
  with safe_applyMoveH [of "length h" nodesAddr targetId newColor] assms
  have t: "take (length h) h' = h" and r: "\<forall>newNodes. res = Inr newNodes \<longrightarrow> length h \<le> newNodes"
    by (auto simp: safe_def)
  from readGraph_frame [OF t] t r show ?thesis by blast
qed

theorem applyMove_frame_witness:
  "applyMoveH 0 1 (Some 0) pathHeap =
     (Inr 7, pathHeap @
        [MapObj [(1, 11)], SetObj [1], NodeObj 0 (Some 0) 2 8, SetObj [],
         NodeObj 1 (Some 0) 6 10, SetObj [1], NodeObj 2 (Some 0) 3 12]) \<and>
   readGraph pathHeap 0 =
     Some [(0, \<lparr>id_node = 0, color = Some 0, size_node = 2, neighbors = [1]\<rparr>),
           (1, \<lparr>id_node = 1, color = Some 1, size_node = 1, neighbors = [0, 2]\<rparr>),
           (2, \<lparr>id_node = 2, color = Some 0, size_node = 3, neighbors = [1]\<rparr>)] \<and>
   readGraph (snd (applyMoveH 0 1 (Some 0) pathHeap)) 0 = readGraph pathHeap 0 \<and>
   readGraph (snd (applyMoveH 0 1 (Some 0) pathHeap)) 7 =
     Some [(1, \<lparr>id_node = 1, color = Some 0, size_node = 6, neighbors = []\<rparr>)] \<and>
   take (length pathHeap) (snd (applyMoveH 0 1 (Some 0) pathHeap)) = pathHeap \<and>
   length pathHeap \<le> 7 \<and>
   applyMove [(0, \<lparr>id_node = 0, color = Some 0, size_node = 2, neighbors = [1]\<rparr>),
              (1, \<lparr>id_node = 1, color = Some 1, size_node = 1, neighbors = [0, 2]\<rparr>),
              (2, \<lparr>id_node = 2, color = Some 0, size_node = 3, neighbors = [1]\<rparr>)] 1 (Some 0) =
     Inr [(1, \<lparr>id_node = 1, color = Some 0, size_node = 6, neighbors = []\<rparr>)]"
proof -
  have a: "applyMoveH 0 1 (Some 0) pathHeap =
     (Inr 7, pathHeap @
        [MapObj [(1, 11)], SetObj [1], NodeObj 0 (Some 0) 2 8, SetObj [],
         NodeObj 1 (Some 0) 6 10, SetObj [1], NodeObj 2 (Some 0) 3 12])"
    by code_simp
  have g: "readGraph pathHeap 0 =
     Some [(0, \<lparr>id_node = 0, color = Some 0, size_node = 2, neighbors = [1]\<rparr>),
           (1, \<lparr>id_node = 1, color = Some 1, size_node = 1, neighbors = [0, 2]\<rparr>),
           (2, \<lparr>id_node = 2, color = Some 0, size_node = 3, neighbors = [1]\<rparr>)]"
    by code_simp
  have n: "readGraph (snd (applyMoveH 0 1 (Some 0) pathHeap)) 7 =
     Some [(1, \<lparr>id_node = 1, color = Some 0, size_node = 6, neighbors = []\<rparr>)]"
    by code_simp
  have p: "applyMove [(0, \<lparr>id_node = 0, color = Some 0, size_node = 2, neighbors = [1]\<rparr>),
              (1, \<lparr>id_node = 1, color = Some 1, size_node = 1, neighbors = [0, 2]\<rparr>),
              (2, \<lparr>id_node = 2, color = Some 0, size_node = 3, neighbors = [1]\<rparr>)] 1 (Some 0) =
     Inr [(1, \<lparr>id_node = 1, color = Some 0, size_node = 6, neighbors = []\<rparr>)]"
    by code_simp
  from applyMove_frame [OF a] a g n p show ?thesis by simp
qed

end
